theory Spec2Isabelle
  imports
    Main
    "HOL-Library.Char_ord"
    "HOL-Library.List_Lexorder"
    "HOL-Library.Product_Lexorder"
    "HOL-Library.Multiset"
    "HOL-Library.AList"
begin

section \<open>Configuration and character classes\<close>

text \<open>
  The module keeps its configuration in two global lists, \<open>GRID_PREFIXES\<close> and
  \<open>E2E_PINS\<close>, which \<open>load_all_configs\<close> fills once.  Every function below that reads
  a global takes the configuration as an explicit argument.

  Strings are byte lists.  The character classes of the regular expressions
  (\<open>[A-Z]\<close>, \<open>\d\<close>) and \<open>str.upper\<close>, \<open>str.lower\<close>, \<open>str.strip\<close> are modelled on ASCII.
\<close>

record config =
  GRID_PREFIXES :: "string list"
  E2E_PINS :: "string list"

definition is_upper_letter :: "char \<Rightarrow> bool" where
  "is_upper_letter c = (CHR ''A'' \<le> c \<and> c \<le> CHR ''Z'')"

definition is_lower_letter :: "char \<Rightarrow> bool" where
  "is_lower_letter c = (CHR ''a'' \<le> c \<and> c \<le> CHR ''z'')"

definition is_digit :: "char \<Rightarrow> bool" where
  "is_digit c = (CHR ''0'' \<le> c \<and> c \<le> CHR ''9'')"

definition is_space :: "char \<Rightarrow> bool" where
  "is_space c = (c = CHR '' '' \<or> (CHR 0x09 \<le> c \<and> c \<le> CHR 0x0D) \<or> (CHR 0x1C \<le> c \<and> c \<le> CHR 0x1F))"

definition upper_char :: "char \<Rightarrow> char" where
  "upper_char c = (if is_lower_letter c then char_of (of_char c - (32::nat)) else c)"

definition lower_char :: "char \<Rightarrow> char" where
  "lower_char c = (if is_upper_letter c then char_of (of_char c + (32::nat)) else c)"

definition py_upper :: "string \<Rightarrow> string" where
  "py_upper s = map upper_char s"

definition py_lower :: "string \<Rightarrow> string" where
  "py_lower s = map lower_char s"

definition py_strip :: "string \<Rightarrow> string" where
  "py_strip s = rev (dropWhile is_space (rev (dropWhile is_space s)))"

definition startswith :: "string \<Rightarrow> string \<Rightarrow> bool" where
  "startswith s p = (take (length p) s = p)"

text \<open>
  In Python's \<open>re\<close>, a final \<open>$\<close> matches at the end of the string and also just before
  a newline that ends the string.
\<close>

definition before_final_newline :: "string \<Rightarrow> string" where
  "before_final_newline s = (if s \<noteq> [] \<and> last s = CHR 0x0A then butlast s else s)"

definition digit_val :: "char \<Rightarrow> nat" where
  "digit_val c = of_char c - 48"

text \<open>
  \<open>int(s)\<close> on the strings the module passes to it: optional surrounding whitespace
  around a non-empty run of decimal digits.  Anything else is \<open>None\<close>.
\<close>

definition py_int :: "string \<Rightarrow> nat option" where
  "py_int s = (let t = py_strip s in
     if t \<noteq> [] \<and> list_all is_digit t
     then Some (foldl (\<lambda>a c. 10 * a + digit_val c) 0 t) else None)"

section \<open>Identifier classifier\<close>

text \<open>\<open>re.match(r'^[A-Z]\d+$', item)\<close>\<close>

definition pin_shape :: "string \<Rightarrow> bool" where
  "pin_shape item = (case item of
       [] \<Rightarrow> False
     | c # r \<Rightarrow> is_upper_letter c \<and>
         (let ds = before_final_newline r in ds \<noteq> [] \<and> list_all is_digit ds))"

text \<open>\<open>\d+x\d+$\<close> with \<open>re.IGNORECASE\<close>, on a stripped string.\<close>

definition dims_shape :: "string \<Rightarrow> bool" where
  "dims_shape r = (let d1 = takeWhile is_digit r; r1 = dropWhile is_digit r in
     d1 \<noteq> [] \<and> (case r1 of
         [] \<Rightarrow> False
       | x # d2 \<Rightarrow> (x = CHR ''x'' \<or> x = CHR ''X'') \<and> d2 \<noteq> [] \<and> list_all is_digit d2))"

definition is_grid_definition :: "string \<Rightarrow> bool" where
  "is_grid_definition item = (case py_strip item of
       l # c # r \<Rightarrow> (is_upper_letter l \<or> is_lower_letter l) \<and> c = CHR '':'' \<and> dims_shape r
     | _ \<Rightarrow> False)"

definition is_e2e_pin_definition :: "string \<Rightarrow> bool" where
  "is_e2e_pin_definition item = startswith (py_lower (py_strip item)) ''e2epins:''"

definition is_pin :: "config \<Rightarrow> string \<Rightarrow> bool" where
  "is_pin cfg item =
     (if GRID_PREFIXES cfg = [] then pin_shape item
      else pin_shape item \<and> take 1 item \<in> set (GRID_PREFIXES cfg))"

text \<open>\<open>re.match(r'^P\d[+-]$', item)\<close>\<close>

definition p_shape :: "string \<Rightarrow> bool" where
  "p_shape item = (case before_final_newline item of
       [p, d, s] \<Rightarrow> p = CHR ''P'' \<and> is_digit d \<and> (s = CHR ''+'' \<or> s = CHR ''-'')
     | _ \<Rightarrow> False)"

definition is_p_element :: "config \<Rightarrow> string \<Rightarrow> bool" where
  "is_p_element cfg item = (p_shape item \<and> item \<notin> set (E2E_PINS cfg))"

definition is_external_element :: "config \<Rightarrow> string \<Rightarrow> bool" where
  "is_external_element cfg item = (is_p_element cfg item \<or> item \<in> set (E2E_PINS cfg))"

section \<open>Group reducer\<close>

text \<open>
  A Python \<open>set\<close> of strings is a duplicate-free list; its iteration order, which Python
  leaves unspecified, is the order of insertion here.  The statements proved about the
  reducer speak of member sets and of sortedness, which do not depend on that order.
\<close>

type_synonym str_set = "string list"

definition py_set :: "string list \<Rightarrow> str_set" where
  "py_set g = remdups g"

text \<open>\<open>bool(a.intersection(b))\<close>\<close>

definition intersects :: "str_set \<Rightarrow> str_set \<Rightarrow> bool" where
  "intersects a b = list_ex (\<lambda>x. x \<in> set b) a"

text \<open>\<open>a.update(b)\<close>\<close>

definition set_update :: "str_set \<Rightarrow> str_set \<Rightarrow> str_set" where
  "set_update a b = a @ filter (\<lambda>x. x \<notin> set a) b"

text \<open>The list left by \<open>xs.pop(i)\<close> for an index in range.\<close>

definition pop_at :: "'a list \<Rightarrow> nat \<Rightarrow> 'a list" where
  "pop_at xs i = take i xs @ drop (Suc i) xs"

text \<open>
  The inner \<open>while i < len(working_groups)\<close> loop: the state is the accumulator
  \<open>current_group\<close>, the list \<open>working_groups\<close> and the scan index \<open>i\<close>.
\<close>

function scan :: "str_set \<Rightarrow> str_set list \<Rightarrow> nat \<Rightarrow> str_set \<times> str_set list" where
  "scan current_group working_groups i =
     (if i < length working_groups then
        (if intersects current_group (working_groups ! i)
         then scan (set_update current_group (working_groups ! i)) (pop_at working_groups i) 0
         else scan current_group working_groups (i + 1))
      else (current_group, working_groups))"
  by pat_completeness auto
termination
  by (relation "measures [\<lambda>(c, wg, i). length wg, \<lambda>(c, wg, i). length wg - i]")
     (auto simp: pop_at_def)

text \<open>The outer \<open>while working_groups\<close> loop, which appends to \<open>merged_groups\<close>.\<close>

function merge_loop :: "str_set list \<Rightarrow> str_set list \<Rightarrow> str_set list" where
  "merge_loop working_groups merged_groups =
     (case working_groups of
        [] \<Rightarrow> merged_groups
      | g # rest \<Rightarrow>
          (case scan g rest 0 of
             (current_group, working_groups') \<Rightarrow>
               merge_loop working_groups' (merged_groups @ [current_group])))"
  by pat_completeness auto
termination
proof (relation "measure (\<lambda>(wg, m). length wg)")
  show "wf (measure (\<lambda>(wg, m). length wg))" by simp
next
  have len: "length (snd (scan c wg i)) \<le> length wg" for c wg i
  proof (induction c wg i rule: scan.induct)
    case (1 c wg i)
    show ?case
    proof (cases "i < length wg")
      case False
      then show ?thesis by (simp add: scan.simps [of c wg i])
    next
      case True
      note lt = this
      show ?thesis
      proof (cases "intersects c (wg ! i)")
        case True
        have "length (pop_at wg i) < length wg" using lt by (simp add: pop_at_def)
        with "1.IH"(1) [OF lt True] lt True show ?thesis
          by (simp add: scan.simps [of c wg i])
      next
        case False
        with "1.IH"(2) [OF lt False] lt show ?thesis
          by (simp add: scan.simps [of c wg i])
      qed
    qed
  qed
  fix working_groups merged_groups :: "str_set list" and g rest current_group working_groups'
  assume "working_groups = g # rest" "(current_group, working_groups') = scan g rest 0"
  then have "working_groups' = snd (scan g rest 0)" by (metis snd_conv)
  with len [of g rest 0] \<open>working_groups = g # rest\<close>
  show "((working_groups', merged_groups @ [current_group]), (working_groups, merged_groups))
      \<in> measure (\<lambda>(wg, m). length wg)" by simp
qed

text \<open>
  The same two loops with no termination argument built in: a run that does not return
  is the value \<open>None\<close>.
\<close>

partial_function (option) scan_while ::
  "str_set \<Rightarrow> str_set list \<Rightarrow> nat \<Rightarrow> (str_set \<times> str_set list) option" where
  "scan_while current_group working_groups i =
     (if i < length working_groups then
        (if intersects current_group (working_groups ! i)
         then scan_while (set_update current_group (working_groups ! i)) (pop_at working_groups i) 0
         else scan_while current_group working_groups (i + 1))
      else Some (current_group, working_groups))"

partial_function (option) merge_while ::
  "str_set list \<Rightarrow> str_set list \<Rightarrow> str_set list option" where
  "merge_while working_groups merged_groups =
     (case working_groups of
        [] \<Rightarrow> Some merged_groups
      | g # rest \<Rightarrow>
          (case scan_while g rest 0 of
             None \<Rightarrow> None
           | Some (current_group, working_groups') \<Rightarrow>
               merge_while working_groups' (merged_groups @ [current_group])))"

text \<open>
  The sort keys of the final pass.  \<open>x[0]\<close> is the one-character string \<open>take 1 x\<close>;
  both keys are only applied to items that passed \<open>is_pin\<close>, which are non-empty and
  whose tail \<open>int\<close> accepts.
\<close>

definition pin_sort_key :: "string \<Rightarrow> string \<times> nat" where
  "pin_sort_key x = (take 1 x, the (py_int (tl x)))"

definition canonical_members :: "config \<Rightarrow> str_set \<Rightarrow> string list" where
  "canonical_members cfg group_set =
     (let pins = sort_key pin_sort_key (filter (is_pin cfg) group_set);
          external = sort_key py_upper
            (filter (\<lambda>item. \<not> is_pin cfg item \<and> \<not> is_grid_definition item
                             \<and> \<not> is_e2e_pin_definition item) group_set)
      in external @ pins)"

definition group_sort_key :: "config \<Rightarrow> string list \<Rightarrow> nat \<times> string" where
  "group_sort_key cfg grp =
     (if grp = [] then (3, ''z'')
      else
        (let external_count = length (filter (\<lambda>item. \<not> is_pin cfg item) grp);
             has_e2e = list_ex (\<lambda>item. item \<in> set (E2E_PINS cfg)) grp
         in if has_e2e then (0, hd grp)
            else if external_count > 0 then (1, hd grp)
            else (2, hd grp)))"

definition reduce_connection_groups :: "config \<Rightarrow> string list list \<Rightarrow> string list list" where
  "reduce_connection_groups cfg initial_groups =
     (if initial_groups = [] then []
      else
        (let working_groups = map py_set (filter (\<lambda>g. g \<noteq> []) initial_groups);
             merged_groups = merge_loop working_groups [];
             final_reduced_groups = map (canonical_members cfg) merged_groups
         in sort_key (group_sort_key cfg) final_reduced_groups))"

definition reduce_connection_groups_while ::
  "config \<Rightarrow> string list list \<Rightarrow> string list list option" where
  "reduce_connection_groups_while cfg initial_groups =
     (if initial_groups = [] then Some []
      else
        (case merge_while (map py_set (filter (\<lambda>g. g \<noteq> []) initial_groups)) [] of
           None \<Rightarrow> None
         | Some merged_groups \<Rightarrow>
             Some (sort_key (group_sort_key cfg) (map (canonical_members cfg) merged_groups))))"

text \<open>
  The elements of a list of groups, and the number of groups an element occurs in
  (counted by position, so a group listed twice counts twice).
\<close>

definition members :: "string list list \<Rightarrow> string set" where
  "members gs = (\<Union>g \<in> set gs. set g)"

definition occurrences :: "string \<Rightarrow> string list list \<Rightarrow> nat" where
  "occurrences x gs = length (filter (\<lambda>g. x \<in> set g) gs)"

text \<open>
  The default configuration of \<open>load_all_configs\<close> (\<open>E2E_PINS = ['G', 'T']\<close>) with two
  grids, used for the concrete runs below.
\<close>

definition example_config :: config where
  "example_config = \<lparr>GRID_PREFIXES = [''A'', ''B''], E2E_PINS = [''G'', ''T'']\<rparr>"

text \<open>
  The final pass keeps a pin, and keeps any other item unless it reads as a grid
  definition (\<open>A:3x4\<close>) or as an \<open>e2epins:\<close> line.
\<close>

definition kept :: "config \<Rightarrow> string \<Rightarrow> bool" where
  "kept cfg item = (is_pin cfg item \<or> (\<not> is_grid_definition item \<and> \<not> is_e2e_pin_definition item))"

text \<open>The value of \<open>merged_groups\<close> when the merge loops are done.\<close>

definition merged_of :: "string list list \<Rightarrow> str_set list" where
  "merged_of gs = merge_loop (map py_set (filter (\<lambda>g. g \<noteq> []) gs)) []"

section \<open>Chart renderer\<close>

text \<open>The exceptions the renderer can raise.\<close>

datatype py_error = IndexError | KeyError

text \<open>A render operation \<open>(r, c_index, code)\<close>; rows and columns are Python integers.\<close>

type_synonym render_op = "int \<times> int \<times> string"

text \<open>
  \<open>xs[i]\<close>: a negative index counts from the end, an index out of range raises
  \<open>IndexError\<close> (\<open>None\<close> here).
\<close>

definition py_index :: "'a list \<Rightarrow> int \<Rightarrow> nat option" where
  "py_index xs i =
     (if 0 \<le> i \<and> i < int (length xs) then Some (nat i)
      else if i < 0 \<and> - int (length xs) \<le> i then Some (nat (int (length xs) + i))
      else None)"

text \<open>\<open>xs.insert(i, x)\<close>: a negative index counts from the end, and the index is clamped.\<close>

definition py_insert :: "'a list \<Rightarrow> int \<Rightarrow> 'a \<Rightarrow> 'a list" where
  "py_insert xs i x =
     (let n = int (length xs); j = (if i < 0 then max 0 (n + i) else min i n)
      in take (nat j) xs @ [x] @ drop (nat j) xs)"

text \<open>
  \<open>sorted(xs, key=f, reverse=True)\<close>: the stable sort of the reversed list, reversed,
  so that items with equal keys keep their order.
\<close>

definition sorted_reverse :: "('a \<Rightarrow> 'k::linorder) \<Rightarrow> 'a list \<Rightarrow> 'a list" where
  "sorted_reverse f xs = rev (sort_key f (rev xs))"

text \<open>
  The dictionary \<open>ops_by_line\<close>, as an association list in insertion order: an operation
  is appended to the list of its row, which is created when the row is new.
\<close>

fun group_by_line ::
  "render_op list \<Rightarrow> (int \<times> (int \<times> string) list) list \<Rightarrow> (int \<times> (int \<times> string) list) list" where
  "group_by_line [] ops_by_line = ops_by_line"
| "group_by_line ((r, c_index, code) # ops) ops_by_line =
     group_by_line ops
       (AList.map_default r [(c_index, code)] (\<lambda>l. l @ [(c_index, code)]) ops_by_line)"

text \<open>
  The body of the loop over the rows: \<open>line_list = list(lines[r])\<close> is a list of
  one-character strings, every code is inserted as one element, and the elements are
  joined.
\<close>

definition color_line :: "string \<Rightarrow> (int \<times> string) list \<Rightarrow> string" where
  "color_line line line_ops =
     concat (foldl (\<lambda>line_list (c_index, code). py_insert line_list c_index code)
               (map (\<lambda>ch. [ch]) line) (sorted_reverse fst line_ops))"

text \<open>
  The loop over \<open>sorted(ops_by_line.keys())\<close>, run over the entries sorted by their key.
  The result is the content of \<open>lines\<close> when the function returns or raises, with the
  exception raised, if any.
\<close>

fun color_rows ::
  "(int \<times> (int \<times> string) list) list \<Rightarrow> string list \<Rightarrow> string list \<times> py_error option" where
  "color_rows [] lines = (lines, None)"
| "color_rows ((r, line_ops) # rest) lines =
     (case py_index lines r of
        None \<Rightarrow> (lines, Some IndexError)
      | Some k \<Rightarrow> color_rows rest (lines[k := color_line (lines ! k) line_ops]))"

definition apply_coloring :: "string list \<Rightarrow> render_op list \<Rightarrow> string list \<times> py_error option" where
  "apply_coloring lines ops = color_rows (sort_key fst (group_by_line ops [])) lines"

section \<open>Color assigner\<close>

text \<open>The ANSI escape codes of the module (\<open>\033\<close> is the byte \<open>0x1B\<close>).\<close>

definition ESC :: char where "ESC = CHR 0x1B"




text \<open>
  A Python \<open>dict\<close> is an association list in insertion order: assigning to a key that is
  present replaces its value in place, assigning to a new key appends an entry.
\<close>

type_synonym color_dict = "(string \<times> string) list"
type_synonym pin_op = "int \<times> int \<times> string \<times> string"









section \<open>Short analyzer\<close>

text \<open>
  Part 4 of \<open>process_and_output_charts\<close>: from the globally reduced groups and the
  external color map of Part 3 it computes \<open>e2e_shorts_map\<close> and
  \<open>printable_isolated_groups\<close>.  The sets \<open>all_non_pin_items\<close>,
  \<open>p_elements_in_group\<close> and the list \<open>present_e2e_pins\<close> of one group come first.
\<close>

definition NEUTRAL_BACKGROUND :: string where
  "NEUTRAL_BACKGROUND = ESC # ''[40m''"

type_synonym shorts_map = "(string \<times> color_dict) list"

definition all_non_pin_items_of :: "config \<Rightarrow> string list \<Rightarrow> str_set" where
  "all_non_pin_items_of cfg grp =
     filter (\<lambda>item. \<not> is_pin cfg item \<and> \<not> is_grid_definition item) (py_set grp)"

definition p_elements_of :: "config \<Rightarrow> string list \<Rightarrow> str_set" where
  "p_elements_of cfg grp = filter (is_p_element cfg) (all_non_pin_items_of cfg grp)"

definition present_e2e_pins_of :: "config \<Rightarrow> string list \<Rightarrow> string list" where
  "present_e2e_pins_of cfg grp = filter (\<lambda>pin. pin \<in> set (py_set grp)) (E2E_PINS cfg)"

text \<open>
  The loop \<open>for item in all_non_pin_items\<close> for one terminal: an item other than the
  terminal itself is entered into the terminal's dictionary if it is not there yet.
\<close>

fun short_items :: "string \<Rightarrow> color_dict \<Rightarrow> string list \<Rightarrow> color_dict \<Rightarrow> color_dict" where
  "short_items e2e_pin ecm [] d = d"
| "short_items e2e_pin ecm (item # items) d =
     short_items e2e_pin ecm items
       (if item \<noteq> e2e_pin \<and> map_of d item = None
        then d @ [(item, case map_of ecm item of None \<Rightarrow> NEUTRAL_BACKGROUND | Some c \<Rightarrow> c)]
        else d)"

text \<open>The loop \<open>for e2e_pin in present_e2e_pins\<close>, updating \<open>e2e_shorts_map[e2e_pin]\<close>.\<close>

fun short_pins :: "color_dict \<Rightarrow> string list \<Rightarrow> string list \<Rightarrow> shorts_map \<Rightarrow> shorts_map" where
  "short_pins ecm items [] sm = sm"
| "short_pins ecm items (e2e_pin # pins) sm =
     short_pins ecm items pins (AList.map_entry e2e_pin (short_items e2e_pin ecm items) sm)"

text \<open>The loop \<open>for group in globally_reduced_groups\<close>.\<close>

fun analyse_groups ::
  "config \<Rightarrow> color_dict \<Rightarrow> string list list \<Rightarrow> shorts_map \<times> str_set list
     \<Rightarrow> shorts_map \<times> str_set list" where
  "analyse_groups cfg ecm [] st = st"
| "analyse_groups cfg ecm (grp # gs) (e2e_shorts_map, isolated_p_groups) =
     (let all_non_pin_items = all_non_pin_items_of cfg grp;
          p_elements_in_group = p_elements_of cfg grp;
          present_e2e_pins = present_e2e_pins_of cfg grp;
          is_isolated_p_group =
            (length p_elements_in_group = length all_non_pin_items \<and> present_e2e_pins = [])
      in analyse_groups cfg ecm gs
           (short_pins ecm all_non_pin_items present_e2e_pins e2e_shorts_map,
            if is_isolated_p_group \<and> length p_elements_in_group > 1
            then isolated_p_groups @ [p_elements_in_group] else isolated_p_groups))"

text \<open>The keys of all dictionaries in \<open>e2e_shorts_map\<close>.\<close>

definition all_e2e_targets :: "shorts_map \<Rightarrow> string list" where
  "all_e2e_targets e2e_shorts_map = concat (map (\<lambda>(pin, target_map). map fst target_map) e2e_shorts_map)"

definition short_analysis ::
  "config \<Rightarrow> string list list \<Rightarrow> color_dict \<Rightarrow> shorts_map \<times> string list list" where
  "short_analysis cfg globally_reduced_groups external_color_map_part3 =
     (case analyse_groups cfg external_color_map_part3 globally_reduced_groups
             (foldl (\<lambda>d pin. AList.update pin [] d) [] (E2E_PINS cfg), []) of
        (e2e_shorts_map, isolated_p_groups) \<Rightarrow>
          (e2e_shorts_map,
           map (sort_key py_upper)
             (filter (\<lambda>grp. \<not> list_ex (\<lambda>item. item \<in> set (all_e2e_targets e2e_shorts_map)) grp)
                isolated_p_groups)))"

text \<open>The test under which the loop appends \<open>p_elements_in_group\<close> to \<open>isolated_p_groups\<close>.\<close>

definition appended_isolated :: "config \<Rightarrow> string list \<Rightarrow> bool" where
  "appended_isolated cfg grp =
     (length (p_elements_of cfg grp) = length (all_non_pin_items_of cfg grp)
      \<and> present_e2e_pins_of cfg grp = [] \<and> length (p_elements_of cfg grp) > 1)"

section \<open>Grid coordinate mapper\<close>

text \<open>\<open>str(n)\<close> for a non-negative integer: its decimal digits.\<close>

fun py_str :: "nat \<Rightarrow> string" where
  "py_str n = (if n < 10 then [char_of (48 + n)] else py_str (n div 10) @ [char_of (48 + n mod 10)])"

declare py_str.simps [simp del]

text \<open>
  \<open>s.center(width)\<close>: the string itself when it is not shorter than \<open>width\<close>; otherwise
  padded with spaces, the left margin getting the extra space when the margin and the
  width are both odd.
\<close>

definition py_center :: "string \<Rightarrow> int \<Rightarrow> string" where
  "py_center s width =
     (let marg = width - int (length s) in
      if marg \<le> 0 then s
      else
        (let left = marg div 2 + (if odd marg \<and> odd width then 1 else 0)
         in replicate (nat left) CHR '' '' @ s @ replicate (nat (marg - left)) CHR '' ''))"

text \<open>\<open>coord_map\<close>, a dictionary from cell names to \<open>(line_index, closing_pipe_index)\<close>.\<close>

type_synonym coord_dict = "(string \<times> int \<times> int) list"

text \<open>
  The inner loop \<open>for _ in range(C)\<close> of row \<open>i\<close>, with \<open>n\<close> cells to go; its state is
  \<open>coord_map\<close>, \<open>row_str\<close> and \<open>dot_number\<close>.
\<close>

fun grid_cells ::
  "string \<Rightarrow> int \<Rightarrow> nat \<Rightarrow> nat \<Rightarrow> coord_dict \<times> string \<times> nat \<Rightarrow> coord_dict \<times> string \<times> nat" where
  "grid_cells prefix cell_width i 0 st = st"
| "grid_cells prefix cell_width i (Suc n) (coord_map, row_str, dot_number) =
     (let cell_name = prefix @ py_str dot_number;
          line_index = 2 * int i + 1;
          closing_pipe_index = int (length row_str) + cell_width
      in grid_cells prefix cell_width i n
           (AList.update cell_name (line_index, closing_pipe_index) coord_map,
            row_str @ py_center cell_name cell_width @ ''|'',
            dot_number + 1))"

text \<open>
  The outer loop \<open>for i in range(R)\<close> over the rows still to do; its state is
  \<open>grid_lines\<close>, \<open>coord_map\<close> and \<open>dot_number\<close>.
\<close>

fun grid_rows ::
  "string \<Rightarrow> nat \<Rightarrow> int \<Rightarrow> int \<Rightarrow> string \<Rightarrow> nat list
     \<Rightarrow> string list \<times> coord_dict \<times> nat \<Rightarrow> string list \<times> coord_dict \<times> nat" where
  "grid_rows prefix C R cell_width border_line [] st = st"
| "grid_rows prefix C R cell_width border_line (i # rest) (grid_lines, coord_map, dot_number) =
     (case grid_cells prefix cell_width i C (coord_map, ''|'', dot_number) of
        (coord_map', row_str, dot_number') \<Rightarrow>
          grid_rows prefix C R cell_width border_line rest
            (grid_lines @ [row_str] @ (if int i < R - 1 then [border_line] else []),
             coord_map', dot_number'))"

definition generate_ascii_grid ::
  "string \<Rightarrow> int \<Rightarrow> int \<Rightarrow> int \<Rightarrow> string list \<times> coord_dict" where
  "generate_ascii_grid prefix C R cell_width =
     (let border_line =
            ''+'' @ concat (replicate (nat C) (replicate (nat cell_width) CHR ''-'' @ ''+''))
      in case grid_rows prefix (nat C) R cell_width border_line [0..<nat R]
                ([border_line], [], 1) of
           (grid_lines, coord_map, dot_number) \<Rightarrow> (grid_lines @ [border_line], coord_map))"


text \<open>
  A coordinate lies before cell \<open>(line, col)\<close> when it is on an earlier line, or on the
  same line at a smaller column.
\<close>

definition before_cell :: "int \<Rightarrow> int \<Rightarrow> int \<times> int \<Rightarrow> bool" where
  "before_cell line col v = (fst v < line \<or> (fst v = line \<and> snd v < col))"

section \<open>Colored copies of the base grid\<close>

text \<open>
  \<open>build_colored_grid_lines\<close> receives a dictionary of mutable lists and
  \<open>apply_coloring\<close> assigns to \<open>lines[r]\<close> in place, so the list objects live in an
  explicit store: a heap is the list of all list objects, a reference is an index into
  it, and a dictionary of line lists maps a prefix to a reference.  Strings are
  immutable values.
\<close>

type_synonym ref = nat
type_synonym heap = "string list list"
type_synonym lines_dict = "(string \<times> ref) list"

text \<open>
  \<open>{p: list(base_grid_lines[p]) for p in GRID_PREFIXES}\<close>: every \<open>list(...)\<close> allocates
  a new list object with the same strings; a missing key raises \<open>KeyError\<close>.
\<close>

fun clone_lines ::
  "string list \<Rightarrow> lines_dict \<Rightarrow> heap \<Rightarrow> lines_dict \<Rightarrow> heap \<times> (py_error + lines_dict)" where
  "clone_lines [] base_grid_lines h colored_lines = (h, Inr colored_lines)"
| "clone_lines (p # ps) base_grid_lines h colored_lines =
     (case map_of base_grid_lines p of
        None \<Rightarrow> (h, Inl KeyError)
      | Some a \<Rightarrow>
          clone_lines ps base_grid_lines (h @ [h ! a]) (AList.update p (length h) colored_lines))"

text \<open>
  The loop that fills \<open>ops_by_prefix\<close>; an operation for a prefix that is not a key
  raises \<open>KeyError\<close>.  These lists are local to the call and are kept as values.
\<close>

fun group_by_prefix ::
  "pin_op list \<Rightarrow> (string \<times> render_op list) list \<Rightarrow> py_error + (string \<times> render_op list) list" where
  "group_by_prefix [] ops_by_prefix = Inr ops_by_prefix"
| "group_by_prefix ((r, c_index, code, prefix) # ops) ops_by_prefix =
     (case map_of ops_by_prefix prefix of
        None \<Rightarrow> Inl KeyError
      | Some l \<Rightarrow>
          group_by_prefix ops (AList.update prefix (l @ [(r, c_index, code)]) ops_by_prefix))"

text \<open>
  The loop \<open>for prefix in GRID_PREFIXES\<close>: \<open>apply_coloring\<close> mutates the list object that
  \<open>colored_lines[prefix]\<close> refers to.
\<close>

fun color_prefixes ::
  "string list \<Rightarrow> lines_dict \<Rightarrow> (string \<times> render_op list) list \<Rightarrow> heap
     \<Rightarrow> heap \<times> py_error option" where
  "color_prefixes [] colored_lines ops_by_prefix h = (h, None)"
| "color_prefixes (prefix # ps) colored_lines ops_by_prefix h =
     (case map_of colored_lines prefix of
        None \<Rightarrow> (h, Some KeyError)
      | Some a \<Rightarrow>
          (case map_of ops_by_prefix prefix of
             None \<Rightarrow> (h, Some KeyError)
           | Some ops \<Rightarrow>
               (case apply_coloring (h ! a) ops of
                  (lines', None) \<Rightarrow> color_prefixes ps colored_lines ops_by_prefix (h[a := lines'])
                | (lines', Some e) \<Rightarrow> (h[a := lines'], Some e))))"

text \<open>
  The function returns the heap it leaves behind together with the dictionary of colored
  lists or the exception raised.
\<close>

definition build_colored_grid_lines ::
  "config \<Rightarrow> lines_dict \<Rightarrow> pin_op list \<Rightarrow> heap \<Rightarrow> heap \<times> (py_error + lines_dict)" where
  "build_colored_grid_lines cfg base_grid_lines consolidated_ops h =
     (case clone_lines (GRID_PREFIXES cfg) base_grid_lines h [] of
        (h1, Inl e) \<Rightarrow> (h1, Inl e)
      | (h1, Inr colored_lines) \<Rightarrow>
          (case group_by_prefix consolidated_ops
                  (foldl (\<lambda>d p. AList.update p [] d) [] (GRID_PREFIXES cfg)) of
             Inl e \<Rightarrow> (h1, Inl e)
           | Inr ops_by_prefix \<Rightarrow>
               (case color_prefixes (GRID_PREFIXES cfg) colored_lines ops_by_prefix h1 of
                  (h2, Some e) \<Rightarrow> (h2, Inl e)
                | (h2, None) \<Rightarrow> (h2, Inr colored_lines))))"

text \<open>The contents a dictionary of line lists has in a heap.\<close>

definition deref :: "heap \<Rightarrow> lines_dict \<Rightarrow> (string \<times> string list) list" where
  "deref h d = map (\<lambda>(p, a). (p, h ! a)) d"


text \<open>
  The references of a dictionary are pairwise distinct, and all of them are objects of
  the heap allocated at address \<open>n\<close> or later.
\<close>

definition fresh_refs :: "nat \<Rightarrow> heap \<Rightarrow> lines_dict \<Rightarrow> bool" where
  "fresh_refs n h d = (distinct (map snd d) \<and> (\<forall>a \<in> snd ` set d. n \<le> a \<and> a < length h))"

text \<open>
  The contents of the colored copies as a function of the contents of the base alone:
  the three phases of \<open>build_colored_grid_lines\<close> on values instead of references.
\<close>

fun clone_contents ::
  "string list \<Rightarrow> (string \<times> string list) list \<Rightarrow> (string \<times> string list) list
     \<Rightarrow> py_error + (string \<times> string list) list" where
  "clone_contents [] base acc = Inr acc"
| "clone_contents (p # ps) base acc =
     (case map_of base p of
        None \<Rightarrow> Inl KeyError
      | Some ls \<Rightarrow> clone_contents ps base (AList.update p ls acc))"

fun color_contents ::
  "string list \<Rightarrow> (string \<times> render_op list) list \<Rightarrow> (string \<times> string list) list
     \<Rightarrow> (string \<times> string list) list \<times> py_error option" where
  "color_contents [] ops_by_prefix acc = (acc, None)"
| "color_contents (prefix # ps) ops_by_prefix acc =
     (case map_of acc prefix of
        None \<Rightarrow> (acc, Some KeyError)
      | Some ls \<Rightarrow>
          (case map_of ops_by_prefix prefix of
             None \<Rightarrow> (acc, Some KeyError)
           | Some ops \<Rightarrow>
               (case apply_coloring ls ops of
                  (lines', None) \<Rightarrow> color_contents ps ops_by_prefix (AList.update prefix lines' acc)
                | (lines', Some e) \<Rightarrow> (AList.update prefix lines' acc, Some e))))"

definition colored_contents ::
  "config \<Rightarrow> (string \<times> string list) list \<Rightarrow> pin_op list
     \<Rightarrow> py_error + (string \<times> string list) list" where
  "colored_contents cfg base consolidated_ops =
     (case clone_contents (GRID_PREFIXES cfg) base [] of
        Inl e \<Rightarrow> Inl e
      | Inr acc \<Rightarrow>
          (case group_by_prefix consolidated_ops
                  (foldl (\<lambda>d p. AList.update p [] d) [] (GRID_PREFIXES cfg)) of
             Inl e \<Rightarrow> Inl e
           | Inr ops_by_prefix \<Rightarrow>
               (case color_contents (GRID_PREFIXES cfg) ops_by_prefix acc of
                  (acc', Some e) \<Rightarrow> Inl e
                | (acc', None) \<Rightarrow> Inr acc')))"


section \<open>Properties of the group reducer\<close>

declare scan.simps [simp del]
declare merge_loop.simps [simp del]

lemma members_simps [simp]:
  "members [] = {}" "members (g # gs) = set g \<union> members gs"
  "members (gs @ hs) = members gs \<union> members hs"
  by (auto simp: members_def)

lemma occurrences_simps [simp]:
  "occurrences x [] = 0"
  "occurrences x (g # gs) = (if x \<in> set g then 1 else 0) + occurrences x gs"
  "occurrences x (gs @ hs) = occurrences x gs + occurrences x hs"
  by (auto simp: occurrences_def)

lemma occurrences_zero_iff: "occurrences x gs = 0 \<longleftrightarrow> x \<notin> members gs"
  by (induction gs) auto

lemma intersects_iff: "intersects a b \<longleftrightarrow> set a \<inter> set b \<noteq> {}"
  by (auto simp: intersects_def list_ex_iff)

lemma set_set_update [simp]: "set (set_update a b) = set a \<union> set b"
  by (auto simp: set_update_def)

lemma distinct_set_update: "distinct a \<Longrightarrow> distinct b \<Longrightarrow> distinct (set_update a b)"
  by (auto simp: set_update_def)

lemma members_pop_at:
  "i < length wg \<Longrightarrow> set (wg ! i) \<union> members (pop_at wg i) = members wg"
proof -
  assume "i < length wg"
  then have "wg = take i wg @ (wg ! i) # drop (Suc i) wg"
    by (simp add: id_take_nth_drop)
  then have "members wg = members (take i wg @ (wg ! i) # drop (Suc i) wg)" by simp
  then show ?thesis by (auto simp: pop_at_def)
qed

lemma set_pop_at_subset: "set (pop_at wg i) \<subseteq> set wg"
  by (auto simp: pop_at_def dest: in_set_takeD in_set_dropD)

lemma scan_members:
  "scan c wg i = (c', wg') \<Longrightarrow> set c' \<union> members wg' = set c \<union> members wg"
proof (induction c wg i arbitrary: c' wg' rule: scan.induct)
  case (1 c wg i)
  show ?case
  proof (cases "i < length wg")
    case False
    with "1.prems" show ?thesis by (simp add: scan.simps [of c wg i])
  next
    case lt: True
    show ?thesis
    proof (cases "intersects c (wg ! i)")
      case True
      with lt "1.prems" have "scan (set_update c (wg ! i)) (pop_at wg i) 0 = (c', wg')"
        by (simp add: scan.simps [of c wg i])
      from "1.IH"(1) [OF lt True this] members_pop_at [OF lt] show ?thesis by auto
    next
      case False
      with lt "1.prems" have "scan c wg (i + 1) = (c', wg')"
        by (simp add: scan.simps [of c wg i])
      from "1.IH"(2) [OF lt False this] show ?thesis .
    qed
  qed
qed

lemma scan_subset:
  "scan c wg i = (c', wg') \<Longrightarrow> set wg' \<subseteq> set wg \<and> set c \<subseteq> set c'"
proof (induction c wg i arbitrary: c' wg' rule: scan.induct)
  case (1 c wg i)
  show ?case
  proof (cases "i < length wg")
    case False
    with "1.prems" show ?thesis by (simp add: scan.simps [of c wg i])
  next
    case lt: True
    show ?thesis
    proof (cases "intersects c (wg ! i)")
      case True
      with lt "1.prems" have "scan (set_update c (wg ! i)) (pop_at wg i) 0 = (c', wg')"
        by (simp add: scan.simps [of c wg i])
      from "1.IH"(1) [OF lt True this] set_pop_at_subset [of wg i] show ?thesis by auto
    next
      case False
      with lt "1.prems" have "scan c wg (i + 1) = (c', wg')"
        by (simp add: scan.simps [of c wg i])
      from "1.IH"(2) [OF lt False this] show ?thesis .
    qed
  qed
qed

lemma scan_disjoint:
  "scan c wg i = (c', wg') \<Longrightarrow> \<forall>j<i. \<not> intersects c (wg ! j) \<Longrightarrow> i \<le> length wg
   \<Longrightarrow> set c' \<inter> members wg' = {}"
proof (induction c wg i arbitrary: c' wg' rule: scan.induct)
  case (1 c wg i)
  show ?case
  proof (cases "i < length wg")
    case False
    with "1.prems" have eq: "c' = c" "wg' = wg" and "i = length wg"
      by (simp_all add: scan.simps [of c wg i])
    have "\<forall>g\<in>set wg. set c \<inter> set g = {}"
    proof
      fix g assume "g \<in> set wg"
      then obtain j where "j < length wg" "wg ! j = g" by (auto simp: in_set_conv_nth)
      with "1.prems"(2) \<open>i = length wg\<close> have "\<not> intersects c g" by auto
      then show "set c \<inter> set g = {}" by (simp add: intersects_iff)
    qed
    with eq show ?thesis by (auto simp: members_def)
  next
    case lt: True
    show ?thesis
    proof (cases "intersects c (wg ! i)")
      case True
      with lt "1.prems" have "scan (set_update c (wg ! i)) (pop_at wg i) 0 = (c', wg')"
        by (simp add: scan.simps [of c wg i])
      from "1.IH"(1) [OF lt True this] show ?thesis by simp
    next
      case False
      with lt "1.prems" have s: "scan c wg (i + 1) = (c', wg')"
        by (simp add: scan.simps [of c wg i])
      have "\<forall>j<i + 1. \<not> intersects c (wg ! j)"
        using "1.prems"(2) False by (auto simp: less_Suc_eq)
      from "1.IH"(2) [OF lt False s this] lt show ?thesis by simp
    qed
  qed
qed

lemma scan_covers:
  "scan c wg i = (c', wg') \<Longrightarrow> g \<in> set (c # wg) \<Longrightarrow> \<exists>h \<in> set (c' # wg'). set g \<subseteq> set h"
proof (induction c wg i arbitrary: c' wg' g rule: scan.induct)
  case (1 c wg i)
  show ?case
  proof (cases "i < length wg")
    case False
    with "1.prems" show ?thesis by (auto simp add: scan.simps [of c wg i])
  next
    case lt: True
    show ?thesis
    proof (cases "intersects c (wg ! i)")
      case True
      with lt "1.prems" have s: "scan (set_update c (wg ! i)) (pop_at wg i) 0 = (c', wg')"
        by (simp add: scan.simps [of c wg i])
      have wg: "wg = take i wg @ (wg ! i) # drop (Suc i) wg"
        using lt by (simp add: id_take_nth_drop)
      from "1.prems"(2) have "g = c \<or> g = wg ! i \<or> g \<in> set (pop_at wg i)"
        by (subst (asm) wg) (auto simp: pop_at_def)
      then consider "set g \<subseteq> set (set_update c (wg ! i))" | "g \<in> set (pop_at wg i)"
        by auto
      then show ?thesis
      proof cases
        case 1
        from "1.IH"(1) [OF lt True s, of "set_update c (wg ! i)"]
        obtain h where "h \<in> set (c' # wg')" "set (set_update c (wg ! i)) \<subseteq> set h" by auto
        with 1 show ?thesis by blast
      next
        case 2
        from "1.IH"(1) [OF lt True s, of g] 2 show ?thesis by auto
      qed
    next
      case False
      with lt "1.prems" have "scan c wg (i + 1) = (c', wg')"
        by (simp add: scan.simps [of c wg i])
      from "1.IH"(2) [OF lt False this "1.prems"(2)] show ?thesis .
    qed
  qed
qed

lemma scan_no_overlap:
  "\<forall>g \<in> set wg. \<not> intersects c g \<Longrightarrow> scan c wg i = (c, wg)"
proof (induction c wg i rule: scan.induct)
  case (1 c wg i)
  show ?case
  proof (cases "i < length wg")
    case False
    then show ?thesis by (simp add: scan.simps [of c wg i])
  next
    case lt: True
    then have ni: "\<not> intersects c (wg ! i)" using "1.prems" by simp
    from "1.IH"(2) [OF lt ni "1.prems"] lt ni show ?thesis
      by (simp add: scan.simps [of c wg i])
  qed
qed


lemma merge_loop_Nil: "merge_loop [] acc = acc"
  by (simp add: merge_loop.simps [of "[]" acc])

lemma merge_loop_Cons:
  "scan g rest 0 = (c, wg') \<Longrightarrow> merge_loop (g # rest) acc = merge_loop wg' (acc @ [c])"
  by (simp add: merge_loop.simps [of "g # rest" acc])

lemma merge_loop_members: "members (merge_loop wg acc) = members acc \<union> members wg"
proof (induction wg acc rule: merge_loop.induct)
  case (1 wg acc)
  show ?case
  proof (cases wg)
    case Nil
    then show ?thesis by (simp add: merge_loop_Nil)
  next
    case (Cons g rest)
    obtain c wg' where s: "scan g rest 0 = (c, wg')" by (cases "scan g rest 0")
    from "1.IH" [OF Cons s [symmetric]] scan_members [OF s] Cons
    show ?thesis by (auto simp: merge_loop_Cons [OF s])
  qed
qed

lemma merge_loop_occurrences:
  "(\<And>y. occurrences y acc \<le> 1) \<Longrightarrow> members acc \<inter> members wg = {}
   \<Longrightarrow> occurrences x (merge_loop wg acc) \<le> 1"
proof (induction wg acc rule: merge_loop.induct)
  case (1 wg acc)
  show ?case
  proof (cases wg)
    case Nil
    with "1.prems"(1) show ?thesis by (simp add: merge_loop_Nil)
  next
    case (Cons g rest)
    obtain c wg' where s: "scan g rest 0 = (c, wg')" by (cases "scan g rest 0")
    have mem: "set c \<union> members wg' = set g \<union> members rest" by (rule scan_members [OF s])
    have dis: "set c \<inter> members wg' = {}" by (rule scan_disjoint [OF s]) simp_all
    have occ: "occurrences y (acc @ [c]) \<le> 1" for y
    proof (cases "y \<in> set c")
      case True
      with mem have "y \<in> members wg" using Cons by auto
      with "1.prems"(2) have "y \<notin> members acc" by auto
      then have "occurrences y acc = 0" by (simp add: occurrences_zero_iff)
      then show ?thesis by simp
    next
      case False
      with "1.prems"(1) [of y] show ?thesis by simp
    qed
    have "members (acc @ [c]) \<inter> members wg' = {}"
      using "1.prems"(2) mem dis Cons by auto
    from "1.IH" [OF Cons s [symmetric] occ this]
    show ?thesis by (simp add: Cons merge_loop_Cons [OF s])
  qed
qed

lemma merge_loop_covers:
  "g \<in> set wg \<union> set acc \<Longrightarrow> \<exists>h \<in> set (merge_loop wg acc). set g \<subseteq> set h"
proof (induction wg acc arbitrary: g rule: merge_loop.induct)
  case (1 wg acc)
  show ?case
  proof (cases wg)
    case Nil
    with "1.prems" show ?thesis by (auto simp add: merge_loop_Nil)
  next
    case (Cons g0 rest)
    obtain c wg' where s: "scan g0 rest 0 = (c, wg')" by (cases "scan g0 rest 0")
    have "\<exists>h \<in> set wg' \<union> set (acc @ [c]). set g \<subseteq> set h"
    proof (cases "g \<in> set acc")
      case True
      then show ?thesis by auto
    next
      case False
      with "1.prems" Cons have "g \<in> set (g0 # rest)" by auto
      from scan_covers [OF s this] show ?thesis by auto
    qed
    then obtain h where h: "h \<in> set wg' \<union> set (acc @ [c])" "set g \<subseteq> set h" by blast
    from "1.IH" [OF Cons s [symmetric] h(1)] h(2)
    show ?thesis by (auto simp: Cons merge_loop_Cons [OF s])
  qed
qed

lemma merge_loop_no_overlap:
  "(\<And>y. occurrences y wg \<le> 1) \<Longrightarrow> merge_loop wg acc = acc @ wg"
proof (induction wg arbitrary: acc)
  case Nil
  show ?case by (simp add: merge_loop_Nil)
next
  case (Cons g rest)
  have "\<forall>h \<in> set rest. \<not> intersects g h"
  proof
    fix h assume h: "h \<in> set rest"
    show "\<not> intersects g h"
    proof
      assume "intersects g h"
      then obtain y where y: "y \<in> set g" "y \<in> set h" by (auto simp: intersects_iff)
      with h have "y \<in> members rest" by (auto simp: members_def)
      then have "occurrences y rest \<noteq> 0" by (simp add: occurrences_zero_iff)
      with y(1) Cons.prems [of y] show False by simp
    qed
  qed
  then have s: "scan g rest 0 = (g, rest)" by (rule scan_no_overlap)
  have "occurrences y rest \<le> 1" for y using Cons.prems [of y] by (simp split: if_splits)
  from Cons.IH [OF this] show ?case by (simp add: merge_loop_Cons [OF s])
qed

lemma scan_while_eq: "scan_while c wg i = Some (scan c wg i)"
proof (induction c wg i rule: scan.induct)
  case (1 c wg i)
  show ?case
  proof (cases "i < length wg")
    case False
    then show ?thesis by (simp add: scan.simps [of c wg i] scan_while.simps [of c wg i])
  next
    case lt: True
    show ?thesis
    proof (cases "intersects c (wg ! i)")
      case True
      from "1.IH"(1) [OF lt True] lt True show ?thesis
        by (simp add: scan.simps [of c wg i] scan_while.simps [of c wg i])
    next
      case False
      from "1.IH"(2) [OF lt False] lt False show ?thesis
        by (simp add: scan.simps [of c wg i] scan_while.simps [of c wg i])
    qed
  qed
qed

lemma merge_while_eq: "merge_while wg acc = Some (merge_loop wg acc)"
proof (induction wg acc rule: merge_loop.induct)
  case (1 wg acc)
  show ?case
  proof (cases wg)
    case Nil
    then show ?thesis by (simp add: merge_loop_Nil merge_while.simps [of "[]" acc])
  next
    case (Cons g rest)
    obtain c wg' where s: "scan g rest 0 = (c, wg')" by (cases "scan g rest 0")
    from "1.IH" [OF Cons s [symmetric]] show ?thesis
      by (simp add: Cons merge_loop_Cons [OF s] merge_while.simps [of "g # rest" acc]
          scan_while_eq s)
  qed
qed

text \<open>
  Claim C10.  \<open>reduce_connection_groups\<close> terminates on every input: the two nested
  \<open>while\<close> loops, run with no termination argument built in, return a result for every
  list of groups, and that result is the one of the recursive functions \<open>scan\<close> and
  \<open>merge_loop\<close>, whose recursion is justified by the measure of the claim (a merge
  shortens \<open>working_groups\<close>; otherwise the scan index moves towards its end).
\<close>

theorem reduce_connection_groups_terminates:
  "reduce_connection_groups_while cfg initial_groups
     = Some (reduce_connection_groups cfg initial_groups)"
  by (simp add: reduce_connection_groups_while_def reduce_connection_groups_def merge_while_eq)

theorem reduce_connection_groups_terminates_witness:
  "reduce_connection_groups_while example_config
     [[''B1'', ''B2''], [''B2'', ''B3''], [''B4'']] = Some [[''B1'', ''B2'', ''B3''], [''B4'']]"
proof -
  have "reduce_connection_groups example_config [[''B1'', ''B2''], [''B2'', ''B3''], [''B4'']]
      = [[''B1'', ''B2'', ''B3''], [''B4'']]"
    by code_simp
  with reduce_connection_groups_terminates
    [of example_config "[[''B1'', ''B2''], [''B2'', ''B3''], [''B4'']]"]
  show ?thesis by simp
qed

lemma set_canonical_members:
  "set (canonical_members cfg m) = {x \<in> set m. kept cfg x}"
  by (auto simp: canonical_members_def kept_def Let_def)

lemma members_map_canonical:
  "members (map (canonical_members cfg) ms) = {x \<in> members ms. kept cfg x}"
  by (auto simp: members_def set_canonical_members)

lemma occurrences_map_canonical:
  "occurrences x (map (canonical_members cfg) ms) = (if kept cfg x then occurrences x ms else 0)"
  by (induction ms) (auto simp: set_canonical_members)

lemma occurrences_sort_key: "occurrences x (sort_key f gs) = occurrences x gs"
  by (simp add: occurrences_def filter_sort)

lemma members_sort_key: "members (sort_key f gs) = members gs"
  by (simp add: members_def)

lemma members_working: "members (map py_set (filter (\<lambda>g. g \<noteq> []) gs)) = members gs"
  by (auto simp: members_def py_set_def)

lemma occurrences_two:
  "i < j \<Longrightarrow> j < length gs \<Longrightarrow> x \<in> set (gs ! i) \<Longrightarrow> x \<in> set (gs ! j) \<Longrightarrow> 2 \<le> occurrences x gs"
proof (induction gs arbitrary: i j)
  case Nil
  then show ?case by simp
next
  case (Cons g gs)
  show ?case
  proof (cases i)
    case 0
    with Cons.prems have "x \<in> set g" by simp
    moreover from Cons.prems 0 have "x \<in> members gs"
      by (cases j) (auto simp: members_def)
    then have "occurrences x gs \<noteq> 0" by (simp add: occurrences_zero_iff)
    ultimately show ?thesis by simp
  next
    case (Suc i')
    with Cons.prems obtain j' where "j = Suc j'" by (cases j) auto
    with Cons.IH [of i' j'] Cons.prems Suc show ?thesis by simp
  qed
qed

lemma reduce_eq:
  "reduce_connection_groups cfg gs
     = sort_key (group_sort_key cfg) (map (canonical_members cfg) (merged_of gs))"
  by (cases "gs = []") (simp_all add: reduce_connection_groups_def merged_of_def merge_loop_Nil)

lemma members_merged_of: "members (merged_of gs) = members gs"
  by (simp add: merged_of_def merge_loop_members members_working)

lemma occurrences_merged_of: "occurrences x (merged_of gs) \<le> 1"
  unfolding merged_of_def by (rule merge_loop_occurrences) simp_all

lemma members_reduce:
  "members (reduce_connection_groups cfg gs) = {x \<in> members gs. kept cfg x}"
  by (simp add: reduce_eq members_sort_key members_map_canonical members_merged_of)

lemma occurrences_reduce_le: "occurrences x (reduce_connection_groups cfg gs) \<le> 1"
  using occurrences_merged_of [of x gs]
  by (simp add: reduce_eq occurrences_sort_key occurrences_map_canonical)

lemma reduce_disjoint:
  assumes "i < j" "j < length (reduce_connection_groups cfg gs)"
  shows "set (reduce_connection_groups cfg gs ! i) \<inter> set (reduce_connection_groups cfg gs ! j) = {}"
proof (rule ccontr)
  assume "\<not> ?thesis"
  then obtain x where "x \<in> set (reduce_connection_groups cfg gs ! i)"
    "x \<in> set (reduce_connection_groups cfg gs ! j)" by auto
  from occurrences_two [OF assms this] occurrences_reduce_le [of x cfg gs]
  show False by simp
qed

text \<open>
  Claim C1, as the code has it.  The output of \<open>reduce_connection_groups\<close> partitions the
  elements of the input that the final pass keeps: every kept element of an input group
  lies in exactly one output group, no two output groups share an element, and the union
  of the output groups is the set of kept input elements.  An item that is not a pin and
  reads as a grid definition or as an \<open>e2epins:\<close> line is in no output group.
\<close>

theorem reduce_connection_groups_partition:
  "(\<forall>x. x \<in> members initial_groups \<and> kept cfg x \<longrightarrow>
        occurrences x (reduce_connection_groups cfg initial_groups) = 1)
   \<and> (\<forall>i j. i < j \<and> j < length (reduce_connection_groups cfg initial_groups) \<longrightarrow>
        set (reduce_connection_groups cfg initial_groups ! i)
          \<inter> set (reduce_connection_groups cfg initial_groups ! j) = {})
   \<and> members (reduce_connection_groups cfg initial_groups)
        = {x \<in> members initial_groups. kept cfg x}"
proof (intro conjI allI impI)
  fix x assume "x \<in> members initial_groups \<and> kept cfg x"
  then have "x \<in> members (reduce_connection_groups cfg initial_groups)"
    by (simp add: members_reduce)
  then have "occurrences x (reduce_connection_groups cfg initial_groups) \<noteq> 0"
    by (simp add: occurrences_zero_iff)
  with occurrences_reduce_le [of x cfg initial_groups]
  show "occurrences x (reduce_connection_groups cfg initial_groups) = 1" by simp
next
  fix i j assume "i < j \<and> j < length (reduce_connection_groups cfg initial_groups)"
  then show "set (reduce_connection_groups cfg initial_groups ! i)
          \<inter> set (reduce_connection_groups cfg initial_groups ! j) = {}"
    using reduce_disjoint by blast
next
  show "members (reduce_connection_groups cfg initial_groups)
        = {x \<in> members initial_groups. kept cfg x}" by (rule members_reduce)
qed

theorem reduce_connection_groups_partition_witness:
  "occurrences ''B2'' (reduce_connection_groups example_config
       [[''B1'', ''B2''], [''B2'', ''B3''], [''B4'']]) = 1
   \<and> set (reduce_connection_groups example_config
       [[''B1'', ''B2''], [''B2'', ''B3''], [''B4'']] ! 0)
     \<inter> set (reduce_connection_groups example_config
       [[''B1'', ''B2''], [''B2'', ''B3''], [''B4'']] ! 1) = {}
   \<and> members (reduce_connection_groups example_config
       [[''B1'', ''B2''], [''B2'', ''B3''], [''B4'']])
     = {x \<in> members [[''B1'', ''B2''], [''B2'', ''B3''], [''B4'']]. kept example_config x}"
proof -
  let ?gs = "[[''B1'', ''B2''], [''B2'', ''B3''], [''B4'']]"
  have m: "''B2'' \<in> members ?gs" by simp
  have k: "kept example_config ''B2''" by code_simp
  have l: "(0::nat) < 1 \<and> 1 < length (reduce_connection_groups example_config ?gs)"
    by code_simp
  from reduce_connection_groups_partition [of ?gs example_config] m k l
  show ?thesis by blast
qed

theorem reduce_connection_groups_partition_counterexample:
  "''A:3x4'' \<in> members [[''A:3x4'']]
   \<and> occurrences ''A:3x4'' (reduce_connection_groups example_config [[''A:3x4'']]) = 0
   \<and> members (reduce_connection_groups example_config [[''A:3x4'']]) \<noteq> members [[''A:3x4'']]"
proof -
  have "reduce_connection_groups example_config [[''A:3x4'']] = [[]]" by code_simp
  then show ?thesis by simp
qed


lemma occurrences_unique:
  assumes "occurrences x ms \<le> 1" "M \<in> set ms" "M' \<in> set ms" "x \<in> set M" "x \<in> set M'"
  shows "M = M'"
proof -
  from assms(2,3) obtain i j where ij: "i < length ms" "ms ! i = M" "j < length ms" "ms ! j = M'"
    by (auto simp: in_set_conv_nth)
  show ?thesis
  proof (cases "i = j")
    case True
    with ij show ?thesis by simp
  next
    case False
    then consider "i < j" | "j < i" by linarith
    then have "2 \<le> occurrences x ms"
    proof cases
      case 1
      from occurrences_two [OF 1 ij(3)] ij assms(4,5) show ?thesis by simp
    next
      case 2
      from occurrences_two [OF 2 ij(1)] ij assms(4,5) show ?thesis by simp
    qed
    with assms(1) show ?thesis by simp
  qed
qed

lemma merged_of_covers:
  assumes "g \<in> set gs" "g \<noteq> []"
  shows "\<exists>M \<in> set (merged_of gs). set g \<subseteq> set M"
proof -
  from assms have "py_set g \<in> set (map py_set (filter (\<lambda>g. g \<noteq> []) gs)) \<union> set []" by auto
  from merge_loop_covers [OF this] show ?thesis by (simp add: merged_of_def py_set_def)
qed

text \<open>
  Claim C2, as the code has it.  If \<open>group1\<close> shares an element with \<open>group2\<close> and
  \<open>group2\<close> shares an element with \<open>group3\<close>, one output group holds every element of the
  three groups that the final pass keeps, whether or not \<open>group1\<close> and \<open>group3\<close> overlap.
\<close>

theorem reduce_connection_groups_transitive:
  assumes "group1 \<in> set initial_groups" "group2 \<in> set initial_groups"
    "group3 \<in> set initial_groups"
    "set group1 \<inter> set group2 \<noteq> {}" "set group2 \<inter> set group3 \<noteq> {}"
  shows "\<exists>G \<in> set (reduce_connection_groups cfg initial_groups).
           {x \<in> set group1 \<union> set group2 \<union> set group3. kept cfg x} \<subseteq> set G"
proof -
  from assms(4,5) have ne: "group1 \<noteq> []" "group2 \<noteq> []" "group3 \<noteq> []" by auto
  from merged_of_covers [OF assms(1) ne(1)] obtain M1
    where M1: "M1 \<in> set (merged_of initial_groups)" "set group1 \<subseteq> set M1" by blast
  from merged_of_covers [OF assms(2) ne(2)] obtain M2
    where M2: "M2 \<in> set (merged_of initial_groups)" "set group2 \<subseteq> set M2" by blast
  from merged_of_covers [OF assms(3) ne(3)] obtain M3
    where M3: "M3 \<in> set (merged_of initial_groups)" "set group3 \<subseteq> set M3" by blast
  from assms(4) obtain x where x: "x \<in> set group1" "x \<in> set group2" by auto
  from assms(5) obtain y where y: "y \<in> set group2" "y \<in> set group3" by auto
  have "M1 = M2"
    using occurrences_unique [OF occurrences_merged_of M1(1) M2(1), of x] x M1(2) M2(2) by auto
  moreover have "M2 = M3"
    using occurrences_unique [OF occurrences_merged_of M2(1) M3(1), of y] y M2(2) M3(2) by auto
  ultimately have sub: "set group1 \<union> set group2 \<union> set group3 \<subseteq> set M2"
    using M1(2) M2(2) M3(2) by auto
  have "canonical_members cfg M2 \<in> set (reduce_connection_groups cfg initial_groups)"
    using M2(1) by (simp add: reduce_eq)
  moreover have "{x \<in> set group1 \<union> set group2 \<union> set group3. kept cfg x}
      \<subseteq> set (canonical_members cfg M2)"
    using sub by (auto simp: set_canonical_members)
  ultimately show ?thesis by blast
qed

theorem reduce_connection_groups_transitive_witness:
  "\<exists>G \<in> set (reduce_connection_groups example_config
         [[''A1'', ''P1+''], [''P1+'', ''B2''], [''B2'', ''G''], [''B4'']]).
     {x \<in> set [''A1'', ''P1+''] \<union> set [''P1+'', ''B2''] \<union> set [''B2'', ''G''].
        kept example_config x} \<subseteq> set G"
  by (rule reduce_connection_groups_transitive) simp_all

theorem reduce_connection_groups_transitive_counterexample:
  "''A:3x4'' \<in> set [''A1'', ''A:3x4'']
   \<and> set [''A1'', ''A:3x4''] \<inter> set [''A1'', ''A2''] \<noteq> {}
   \<and> set [''A1'', ''A2''] \<inter> set [''A2'', ''A3''] \<noteq> {}
   \<and> ''A:3x4'' \<notin> members (reduce_connection_groups example_config
         [[''A1'', ''A:3x4''], [''A1'', ''A2''], [''A2'', ''A3'']])"
proof -
  have "reduce_connection_groups example_config
      [[''A1'', ''A:3x4''], [''A1'', ''A2''], [''A2'', ''A3'']] = [[''A1'', ''A2'', ''A3'']]"
    by code_simp
  then show ?thesis by simp
qed

lemma occurrences_working_le:
  "occurrences y (map py_set (filter P gs)) \<le> occurrences y gs"
  by (induction gs) (auto simp: py_set_def)

lemma reduce_members_kept:
  assumes "g \<in> set (reduce_connection_groups cfg gs)" "x \<in> set g"
  shows "kept cfg x"
proof -
  from assms have "x \<in> members (reduce_connection_groups cfg gs)" by (auto simp: members_def)
  then show ?thesis by (simp add: members_reduce)
qed

text \<open>
  Claim C7, as the code has it.  Reducing the output of \<open>reduce_connection_groups\<close> again
  returns the same groups with the same members, except that empty groups of the first
  output (\<open>if g\<close> discards them) are gone.
\<close>

theorem reduce_connection_groups_idempotent:
  "mset (map set (reduce_connection_groups cfg (reduce_connection_groups cfg initial_groups)))
     = mset (map set (filter (\<lambda>g. g \<noteq> []) (reduce_connection_groups cfg initial_groups)))"
proof -
  let ?out = "reduce_connection_groups cfg initial_groups"
  let ?W = "map py_set (filter (\<lambda>g. g \<noteq> []) ?out)"
  have "occurrences y ?W \<le> 1" for y
    using occurrences_working_le [of y "\<lambda>g. g \<noteq> []" ?out] occurrences_reduce_le [of y cfg initial_groups]
    by simp
  then have m: "merged_of ?out = ?W"
    unfolding merged_of_def using merge_loop_no_overlap [of ?W "[]"] by simp
  have "set (canonical_members cfg (py_set g)) = set g" if "g \<in> set ?out" for g
    using reduce_members_kept [OF that] by (auto simp: set_canonical_members py_set_def)
  then have "map set (map (canonical_members cfg) ?W) = map set (filter (\<lambda>g. g \<noteq> []) ?out)"
    by (simp add: comp_def)
  moreover have "reduce_connection_groups cfg ?out
      = sort_key (group_sort_key cfg) (map (canonical_members cfg) ?W)"
    by (simp only: reduce_eq [of cfg ?out] m)
  moreover have "mset (map set (sort_key (group_sort_key cfg) L)) = mset (map set L)"
    for L :: "string list list" by simp
  ultimately show ?thesis by (simp only:)
qed

theorem reduce_connection_groups_idempotent_witness:
  "mset (map set (reduce_connection_groups example_config
       [[''B1'', ''B2'', ''B3''], [''B4'']]))
     = mset (map set [[''B1'', ''B2'', ''B3''], [''B4'']])"
proof -
  have "reduce_connection_groups example_config [[''B1'', ''B2''], [''B2'', ''B3''], [''B4'']]
      = [[''B1'', ''B2'', ''B3''], [''B4'']]"
    by code_simp
  with reduce_connection_groups_idempotent
    [of example_config "[[''B1'', ''B2''], [''B2'', ''B3''], [''B4'']]"]
  show ?thesis by simp
qed

theorem reduce_connection_groups_idempotent_counterexample:
  "reduce_connection_groups example_config [[''A:3x4'']] = [[]]
   \<and> reduce_connection_groups example_config
        (reduce_connection_groups example_config [[''A:3x4'']]) = []"
  by code_simp

lemma digit_not_space: "is_digit c \<Longrightarrow> \<not> is_space c"
  by (auto simp: is_digit_def is_space_def less_eq_char_def)

lemma dropWhile_hd: "xs \<noteq> [] \<Longrightarrow> \<not> P (hd xs) \<Longrightarrow> dropWhile P xs = xs"
  by (cases xs) auto

lemma py_strip_digits:
  assumes "ds \<noteq> []" "list_all is_digit ds"
  shows "py_strip ds = ds" "py_strip (ds @ [CHR 0x0A]) = ds"
proof -
  from assms have h: "\<not> is_space (hd ds)" "\<not> is_space (last ds)"
    by (auto simp: list_all_iff digit_not_space)
  then have h': "\<not> is_space (hd (rev ds))" "\<not> is_space (hd (ds @ [CHR 0x0A]))"
    using assms(1) by (simp_all add: hd_rev)
  have nl: "is_space (CHR 0x0A)" by (simp add: is_space_def)
  from assms(1) h h' show "py_strip ds = ds"
    by (simp add: py_strip_def dropWhile_hd)
  from assms(1) h h' nl show "py_strip (ds @ [CHR 0x0A]) = ds"
    by (simp add: py_strip_def dropWhile_hd)
qed

lemma pin_shape_int: "pin_shape x \<Longrightarrow> x \<noteq> [] \<and> py_int (tl x) \<noteq> None"
proof -
  assume a: "pin_shape x"
  then obtain c r where x: "x = c # r" by (cases x) (auto simp: pin_shape_def)
  let ?ds = "before_final_newline r"
  from a x have ds: "?ds \<noteq> []" "list_all is_digit ?ds" by (auto simp: pin_shape_def Let_def)
  have "r = ?ds \<or> r = ?ds @ [CHR 0x0A]"
    by (auto simp: before_final_newline_def) (metis append_butlast_last_id)
  with py_strip_digits [OF ds] have "py_strip r = ?ds" by auto
  with ds x show ?thesis by (simp add: py_int_def)
qed

lemma is_pin_int: "is_pin cfg x \<Longrightarrow> x \<noteq> [] \<and> py_int (tl x) \<noteq> None"
  by (rule pin_shape_int) (auto simp: is_pin_def split: if_splits)

lemma filter_none: "(\<And>x. x \<in> set xs \<Longrightarrow> \<not> P x) \<Longrightarrow> filter P xs = []"
  by (simp add: filter_empty_conv)

lemma filter_all: "(\<And>x. x \<in> set xs \<Longrightarrow> P x) \<Longrightarrow> filter P xs = xs"
  by (simp add: filter_id_conv)

lemma canonical_members_split:
  "filter (\<lambda>x. \<not> is_pin cfg x) (canonical_members cfg m)
     = sort_key py_upper (filter (\<lambda>item. \<not> is_pin cfg item \<and> \<not> is_grid_definition item
          \<and> \<not> is_e2e_pin_definition item) m)"
  "filter (is_pin cfg) (canonical_members cfg m) = sort_key pin_sort_key (filter (is_pin cfg) m)"
  by (simp_all add: canonical_members_def Let_def filter_all filter_none)

text \<open>
  Claim C6.  Every group returned by \<open>reduce_connection_groups\<close> is its non-pin members
  followed by its pins; the non-pin members are sorted by \<open>str.upper\<close>, the pins by
  \<open>(x[0], int(x[1:]))\<close>, and that key is defined on each of them.
\<close>

theorem reduce_connection_groups_canonical_order:
  assumes "g \<in> set (reduce_connection_groups cfg initial_groups)"
  shows "g = filter (\<lambda>x. \<not> is_pin cfg x) g @ filter (is_pin cfg) g
    \<and> sorted (map py_upper (filter (\<lambda>x. \<not> is_pin cfg x) g))
    \<and> sorted (map pin_sort_key (filter (is_pin cfg) g))
    \<and> list_all (\<lambda>x. x \<noteq> [] \<and> py_int (tl x) \<noteq> None) (filter (is_pin cfg) g)"
proof -
  from assms obtain m where g: "g = canonical_members cfg m" by (auto simp: reduce_eq)
  have "g = filter (\<lambda>x. \<not> is_pin cfg x) g @ filter (is_pin cfg) g"
    unfolding g canonical_members_split by (simp add: canonical_members_def Let_def)
  moreover have "sorted (map py_upper (filter (\<lambda>x. \<not> is_pin cfg x) g))"
    unfolding g canonical_members_split by (rule sorted_sort_key)
  moreover have "sorted (map pin_sort_key (filter (is_pin cfg) g))"
    unfolding g canonical_members_split by (rule sorted_sort_key)
  moreover have "list_all (\<lambda>x. x \<noteq> [] \<and> py_int (tl x) \<noteq> None) (filter (is_pin cfg) g)"
    using is_pin_int [of cfg] by (auto simp: list_all_iff)
  ultimately show ?thesis by blast
qed

theorem reduce_connection_groups_canonical_order_witness:
  "[''G'', ''p2'', ''A3'', ''B2'', ''B10''] \<in> set (reduce_connection_groups example_config
       [[''B10'', ''p2'', ''B2''], [''G'', ''A3'', ''B2'']])
   \<and> sorted (map py_upper
         (filter (\<lambda>x. \<not> is_pin example_config x) [''G'', ''p2'', ''A3'', ''B2'', ''B10'']))
   \<and> sorted (map pin_sort_key
         (filter (is_pin example_config) [''G'', ''p2'', ''A3'', ''B2'', ''B10'']))"
proof -
  have "reduce_connection_groups example_config [[''B10'', ''p2'', ''B2''], [''G'', ''A3'', ''B2'']]
      = [[''G'', ''p2'', ''A3'', ''B2'', ''B10'']]"
    by code_simp
  then have g: "[''G'', ''p2'', ''A3'', ''B2'', ''B10''] \<in> set (reduce_connection_groups
      example_config [[''B10'', ''p2'', ''B2''], [''G'', ''A3'', ''B2'']])"
    by simp
  from reduce_connection_groups_canonical_order [OF g] g show ?thesis by blast
qed

section \<open>Properties of the chart renderer\<close>

lemma sorted_reverse_two:
  "c1 \<noteq> c2 \<Longrightarrow> sorted_reverse fst [(c1 :: int, a), (c2, b)] = sorted_reverse fst [(c2, b), (c1, a)]"
  by (auto simp: sorted_reverse_def)

lemma group_two:
  "group_by_line [(r, c1, a), (r, c2, b)] [] = [(r, [(c1, a), (c2, b)])]"
  by simp

lemma concat_singletons: "concat (map (\<lambda>ch. [ch]) xs) = xs"
  by (induction xs) auto

lemma take_drop_insert:
  assumes "n1 \<le> n2" "n2 \<le> length S"
  shows "take n1 (take n2 S @ [b] @ drop n2 S) = take n1 S"
    and "drop n1 (take n2 S @ [b] @ drop n2 S) = drop n1 (take n2 S) @ [b] @ drop n2 S"
proof -
  from assms have l: "length (take n2 S) = n2" by simp
  from assms show "take n1 (take n2 S @ [b] @ drop n2 S) = take n1 S"
    by (simp add: l min_absorb1)
  from assms show "drop n1 (take n2 S @ [b] @ drop n2 S) = drop n1 (take n2 S) @ [b] @ drop n2 S"
    by (simp add: l)
qed

lemma color_line_two:
  assumes "0 \<le> c1" "c1 < c2" "c2 \<le> int (length line)"
  shows "color_line line [(c1, a), (c2, b)]
    = take (nat c1) line @ a @ drop (nat c1) (take (nat c2) line) @ b @ drop (nat c2) line"
proof -
  let ?S = "map (\<lambda>ch. [ch]) line"
  have s: "sorted_reverse fst [(c1, a), (c2, b)] = [(c2, b), (c1, a)]"
    using assms by (simp add: sorted_reverse_def)
  have i1: "py_insert ?S c2 b = take (nat c2) ?S @ [b] @ drop (nat c2) ?S"
    using assms by (simp add: py_insert_def Let_def min_def)
  have i2: "py_insert (take (nat c2) ?S @ [b] @ drop (nat c2) ?S) c1 a
      = take (nat c1) ?S @ [a] @ drop (nat c1) (take (nat c2) ?S) @ [b] @ drop (nat c2) ?S"
  proof -
    from assms have n: "nat c1 \<le> nat c2" "nat c2 \<le> length ?S" by simp_all
    have j: "(if c1 < 0 then max 0 (int (length (take (nat c2) ?S @ [b] @ drop (nat c2) ?S)) + c1)
        else min c1 (int (length (take (nat c2) ?S @ [b] @ drop (nat c2) ?S)))) = c1"
      using assms by simp
    show ?thesis
      unfolding py_insert_def Let_def j take_drop_insert [OF n] by simp
  qed
  have t: "concat (take n ?S) = take n line" "concat (drop n ?S) = drop n line" for n
    by (simp_all add: take_map drop_map concat_singletons)
  have t2: "concat (drop n (take m ?S)) = drop n (take m line)" for n m
    by (simp add: take_map drop_map concat_singletons)
  have "foldl (\<lambda>line_list (c_index, code). py_insert line_list c_index code) ?S
      [(c2, b), (c1, a)] = py_insert (py_insert ?S c2 b) c1 a" by simp
  also have "\<dots> = take (nat c1) ?S @ [a] @ drop (nat c1) (take (nat c2) ?S) @ [b]
      @ drop (nat c2) ?S" by (simp only: i1 i2)
  finally show ?thesis
    by (simp add: color_line_def s t t2)
qed

text \<open>
  Claim C5.  Two render operations on the same line at distinct columns give the same
  result of \<open>apply_coloring\<close> in either order of the input list.  When both columns lie
  within the line, each code stands at its own column of the unmodified line: the
  operation at the higher column is applied first and does not move the lower one.
\<close>

theorem apply_coloring_order_independent:
  "(c1 \<noteq> c2 \<longrightarrow>
      apply_coloring lines [(r, c1, code1), (r, c2, code2)]
        = apply_coloring lines [(r, c2, code2), (r, c1, code1)])
   \<and> (0 \<le> c1 \<and> c1 < c2 \<and> py_index lines r = Some k \<and> c2 \<le> int (length (lines ! k)) \<longrightarrow>
      apply_coloring lines [(r, c2, code2), (r, c1, code1)]
        = (lines[k := take (nat c1) (lines ! k) @ code1
                      @ drop (nat c1) (take (nat c2) (lines ! k)) @ code2
                      @ drop (nat c2) (lines ! k)], None))"
proof (intro conjI impI)
  assume ne: "c1 \<noteq> c2"
  have "color_line l [(c1, code1), (c2, code2)] = color_line l [(c2, code2), (c1, code1)]" for l
    by (simp add: color_line_def sorted_reverse_two [OF ne])
  then show "apply_coloring lines [(r, c1, code1), (r, c2, code2)]
        = apply_coloring lines [(r, c2, code2), (r, c1, code1)]"
    by (simp add: apply_coloring_def split: option.split)
next
  assume a: "0 \<le> c1 \<and> c1 < c2 \<and> py_index lines r = Some k \<and> c2 \<le> int (length (lines ! k))"
  then have ne: "c1 \<noteq> c2" by simp
  have "color_line l [(c2, code2), (c1, code1)] = color_line l [(c1, code1), (c2, code2)]" for l
    by (simp add: color_line_def sorted_reverse_two [OF ne])
  with a color_line_two [of c1 c2 "lines ! k" code1 code2]
  show "apply_coloring lines [(r, c2, code2), (r, c1, code1)]
        = (lines[k := take (nat c1) (lines ! k) @ code1
                      @ drop (nat c1) (take (nat c2) (lines ! k)) @ code2
                      @ drop (nat c2) (lines ! k)], None)"
    by (simp add: apply_coloring_def)
qed


theorem apply_coloring_order_independent_witness:
  "apply_coloring [''+--+'', ''|A1|''] [(1, 1, ''<''), (1, 3, ''>'')]
     = apply_coloring [''+--+'', ''|A1|''] [(1, 3, ''>''), (1, 1, ''<'')]
   \<and> apply_coloring [''+--+'', ''|A1|''] [(1, 3, ''>''), (1, 1, ''<'')]
     = ([''+--+'', ''|<A1>|''], None)"
proof -
  have h: "(1::int) \<noteq> 3" "(0::int) \<le> 1 \<and> (1::int) < 3
      \<and> py_index [''+--+'', ''|A1|''] 1 = Some 1
      \<and> (3::int) \<le> int (length ([''+--+'', ''|A1|''] ! 1))"
    by (simp_all add: py_index_def)
  from apply_coloring_order_independent
    [of 1 3 "[''+--+'', ''|A1|'']" 1 "''<''" "''>''" 1] h
  show ?thesis by simp
qed

section \<open>Properties of the color assigner\<close>















section \<open>Properties of the short analyzer\<close>

lemma short_items_keys_image:
  "fst ` set (short_items pin ecm items d) \<subseteq> fst ` set d \<union> set items"
proof (induction items arbitrary: d)
  case Nil
  show ?case by simp
next
  case (Cons item items)
  define d' where "d' = (if item \<noteq> pin \<and> map_of d item = None
        then d @ [(item, case map_of ecm item of None \<Rightarrow> NEUTRAL_BACKGROUND | Some c \<Rightarrow> c)]
        else d)"
  have a: "fst ` set d' \<subseteq> fst ` set d \<union> {item}" by (auto simp: d'_def)
  have c: "short_items pin ecm (item # items) d = short_items pin ecm items d'"
    by (simp add: d'_def)
  have s: "set (item # items) = {item} \<union> set items" by simp
  from a Cons.IH [of d'] show ?case unfolding c s by blast
qed

lemma short_items_keys:
  "set (map fst (short_items pin ecm items d)) \<subseteq> set (map fst d) \<union> set items"
  using short_items_keys_image [of pin ecm items d] by simp

lemma all_e2e_targets_simps:
  "all_e2e_targets [] = []"
  "all_e2e_targets ((k, d) # sm) = map fst d @ all_e2e_targets sm"
  by (simp_all add: all_e2e_targets_def)

lemma targets_map_entry:
  assumes "\<And>d. set (map fst (f d)) \<subseteq> set (map fst d) \<union> S"
  shows "set (all_e2e_targets (AList.map_entry k f sm)) \<subseteq> set (all_e2e_targets sm) \<union> S"
proof (induction sm)
  case Nil
  show ?case by (simp add: all_e2e_targets_simps)
next
  case (Cons p sm)
  obtain k' d where p: "p = (k', d)" by (cases p)
  show ?case
  proof (cases "k' = k")
    case True
    with assms [of d] show ?thesis by (auto simp: p all_e2e_targets_simps)
  next
    case False
    with Cons show ?thesis by (auto simp: p all_e2e_targets_simps)
  qed
qed

lemma short_pins_targets:
  "set (all_e2e_targets (short_pins ecm items pins sm)) \<subseteq> set (all_e2e_targets sm) \<union> set items"
proof (induction pins arbitrary: sm)
  case Nil
  show ?case by simp
next
  case (Cons pin pins)
  have "set (all_e2e_targets (AList.map_entry pin (short_items pin ecm items) sm))
      \<subseteq> set (all_e2e_targets sm) \<union> set items"
    by (rule targets_map_entry) (rule short_items_keys)
  with Cons [of "AList.map_entry pin (short_items pin ecm items) sm"] show ?case by auto
qed

lemma analyse_groups_isolated:
  "snd (analyse_groups cfg ecm gs (sm, isol))
     = isol @ map (p_elements_of cfg) (filter (appended_isolated cfg) gs)"
  by (induction gs arbitrary: sm isol) (auto simp: Let_def appended_isolated_def)

lemma analyse_groups_targets:
  "x \<in> set (all_e2e_targets (fst (analyse_groups cfg ecm gs (sm, isol))))
   \<Longrightarrow> x \<in> set (all_e2e_targets sm)
       \<or> (\<exists>g \<in> set gs. present_e2e_pins_of cfg g \<noteq> [] \<and> x \<in> set (all_non_pin_items_of cfg g))"
proof (induction gs arbitrary: sm isol)
  case Nil
  then show ?case by simp
next
  case (Cons g gs)
  let ?sm = "short_pins ecm (all_non_pin_items_of cfg g) (present_e2e_pins_of cfg g) sm"
  from Cons.prems obtain isol' where
    "x \<in> set (all_e2e_targets (fst (analyse_groups cfg ecm gs (?sm, isol'))))"
    by (auto simp: Let_def split: if_splits)
  from Cons.IH [OF this] consider "x \<in> set (all_e2e_targets ?sm)"
    | "\<exists>g \<in> set gs. present_e2e_pins_of cfg g \<noteq> [] \<and> x \<in> set (all_non_pin_items_of cfg g)"
    by blast
  then show ?case
  proof cases
    case 1
    show ?thesis
    proof (cases "present_e2e_pins_of cfg g = []")
      case True
      with 1 show ?thesis by simp
    next
      case False
      with 1 short_pins_targets [of ecm "all_non_pin_items_of cfg g" "present_e2e_pins_of cfg g" sm]
      show ?thesis by auto
    qed
  next
    case 2
    then show ?thesis by auto
  qed
qed

lemma initial_shorts_no_targets:
  "all_e2e_targets (foldl (\<lambda>d pin. AList.update pin [] d) [] pins) = []"
proof -
  have upd: "all_e2e_targets (AList.update k [] d) = []" if "all_e2e_targets d = []"
    for k and d :: shorts_map
    using that
  proof (induction d)
    case Nil
    show ?case by (simp add: all_e2e_targets_simps)
  next
    case (Cons p d)
    obtain k' v where p: "p = (k', v)" by (cases p)
    from Cons show ?case by (simp add: p all_e2e_targets_simps)
  qed
  have "all_e2e_targets (foldl (\<lambda>d pin. AList.update pin [] d) d pins) = []"
    if "all_e2e_targets d = []" for d :: shorts_map
    using that by (induction pins arbitrary: d) (simp_all add: upd)
  then show ?thesis by (simp add: all_e2e_targets_simps)
qed

lemma p_shape_not_pin: "p_shape x \<Longrightarrow> \<not> pin_shape x"
  by (auto simp: p_shape_def pin_shape_def before_final_newline_def is_digit_def Let_def
      split: list.splits if_splits)


lemma is_p_element_not_pin: "is_p_element cfg x \<Longrightarrow> \<not> is_pin cfg x"
  using p_shape_not_pin [of x] by (auto simp: is_p_element_def is_pin_def split: if_splits)

lemma present_e2e_pins_empty:
  "present_e2e_pins_of cfg g = [] \<longleftrightarrow> (\<forall>pin \<in> set (E2E_PINS cfg). pin \<notin> set g)"
  by (auto simp: present_e2e_pins_of_def py_set_def filter_empty_conv)

lemma all_non_pin_items_subset: "set (all_non_pin_items_of cfg g) \<subseteq> set g"
  by (auto simp: all_non_pin_items_of_def py_set_def)

lemma p_elements_subset: "set (p_elements_of cfg g) \<subseteq> set g"
  using all_non_pin_items_subset [of cfg g] by (auto simp: p_elements_of_def)

lemma short_analysis_parts:
  "fst (short_analysis cfg groups ecm)
     = fst (analyse_groups cfg ecm groups
         (foldl (\<lambda>d pin. AList.update pin [] d) [] (E2E_PINS cfg), []))"
  "snd (short_analysis cfg groups ecm)
     = map (sort_key py_upper)
         (filter (\<lambda>grp. \<not> list_ex (\<lambda>item. item \<in> set (all_e2e_targets
                     (fst (short_analysis cfg groups ecm)))) grp)
            (map (p_elements_of cfg) (filter (appended_isolated cfg) groups)))"
proof -
  obtain sm isol where a: "analyse_groups cfg ecm groups
      (foldl (\<lambda>d pin. AList.update pin [] d) [] (E2E_PINS cfg), []) = (sm, isol)"
    by (cases "analyse_groups cfg ecm groups
      (foldl (\<lambda>d pin. AList.update pin [] d) [] (E2E_PINS cfg), [])")
  from analyse_groups_isolated [of cfg ecm groups _ "[]"] a
  have i: "isol = map (p_elements_of cfg) (filter (appended_isolated cfg) groups)"
    by (metis append_Nil snd_conv)
  from a show "fst (short_analysis cfg groups ecm)
     = fst (analyse_groups cfg ecm groups
         (foldl (\<lambda>d pin. AList.update pin [] d) [] (E2E_PINS cfg), []))"
    by (simp add: short_analysis_def)
  from a i show "snd (short_analysis cfg groups ecm)
     = map (sort_key py_upper)
         (filter (\<lambda>grp. \<not> list_ex (\<lambda>item. item \<in> set (all_e2e_targets
                     (fst (short_analysis cfg groups ecm)))) grp)
            (map (p_elements_of cfg) (filter (appended_isolated cfg) groups)))"
    by (simp add: short_analysis_def)
qed

lemma short_analysis_targets:
  assumes "x \<in> set (all_e2e_targets (fst (short_analysis cfg groups ecm)))"
  shows "\<exists>g \<in> set groups. present_e2e_pins_of cfg g \<noteq> [] \<and> x \<in> set g"
proof -
  let ?init = "foldl (\<lambda>d pin. AList.update pin [] d) [] (E2E_PINS cfg)"
  from assms have "x \<in> set (all_e2e_targets (fst (analyse_groups cfg ecm groups (?init, []))))"
    by (simp only: short_analysis_parts(1))
  from analyse_groups_targets [OF this]
  have "\<exists>g \<in> set groups. present_e2e_pins_of cfg g \<noteq> []
      \<and> x \<in> set (all_non_pin_items_of cfg g)"
    by (simp add: initial_shorts_no_targets)
  with all_non_pin_items_subset [of cfg] show ?thesis by blast
qed

text \<open>
  Claim C3.  Let \<open>G\<close> be a reduced group whose non-pin members are all transient
  elements and which has more than one transient element.  Its sorted transient elements
  are in \<open>printable_isolated_groups\<close> if and only if no declared terminal is in \<open>G\<close> and
  no member of \<open>G\<close> is a key of any dictionary of \<open>e2e_shorts_map\<close>; and, the reduced
  groups being disjoint, if and only if no declared terminal is in \<open>G\<close>, that is, no
  member of \<open>G\<close> is connected to a declared terminal.
\<close>

theorem isolated_group_reported_iff:
  assumes G: "G \<in> set (reduce_connection_groups cfg initial_groups)"
    and np: "\<forall>x \<in> set G. \<not> is_pin cfg x \<longrightarrow> is_p_element cfg x"
    and more: "1 < card {x \<in> set G. is_p_element cfg x}"
  shows
    "(sort_key py_upper (p_elements_of cfg G)
        \<in> set (snd (short_analysis cfg (reduce_connection_groups cfg initial_groups) ecm))
      \<longleftrightarrow> (\<forall>pin \<in> set (E2E_PINS cfg). pin \<notin> set G)
          \<and> (\<forall>x \<in> set G. x \<notin> set (all_e2e_targets
                (fst (short_analysis cfg (reduce_connection_groups cfg initial_groups) ecm)))))
     \<and> (sort_key py_upper (p_elements_of cfg G)
        \<in> set (snd (short_analysis cfg (reduce_connection_groups cfg initial_groups) ecm))
      \<longleftrightarrow> (\<forall>pin \<in> set (E2E_PINS cfg). pin \<notin> set G))"
proof -
  let ?out = "reduce_connection_groups cfg initial_groups"
  let ?sm = "fst (short_analysis cfg ?out ecm)"
  let ?rep = "sort_key py_upper (p_elements_of cfg G) \<in> set (snd (short_analysis cfg ?out ecm))"
  let ?noe2e = "\<forall>pin \<in> set (E2E_PINS cfg). pin \<notin> set G"
  let ?notarget = "\<forall>x \<in> set G. x \<notin> set (all_e2e_targets ?sm)"
  have same: "g = G" if "g \<in> set ?out" "x \<in> set g" "x \<in> set G" for g x
    using occurrences_unique [OF occurrences_reduce_le that(1) G that(2,3)] .
  have pset: "set (p_elements_of cfg G) = {x \<in> set G. is_p_element cfg x}"
  proof -
    have "\<not> is_pin cfg x \<and> \<not> is_grid_definition x" if "x \<in> set G" "is_p_element cfg x" for x
      using reduce_members_kept [OF G that(1)] is_p_element_not_pin [OF that(2)]
      by (simp add: kept_def)
    then show ?thesis
      by (auto simp: p_elements_of_def all_non_pin_items_of_def py_set_def)
  qed
  have "distinct (p_elements_of cfg G)"
    by (simp add: p_elements_of_def all_non_pin_items_of_def py_set_def)
  then have len: "length (p_elements_of cfg G) = card {x \<in> set G. is_p_element cfg x}"
    using distinct_card [of "p_elements_of cfg G"] pset by simp
  have eq: "p_elements_of cfg G = all_non_pin_items_of cfg G"
    unfolding p_elements_of_def
    by (rule filter_all) (use np in \<open>auto simp: all_non_pin_items_of_def py_set_def\<close>)
  have A: "?notarget \<and> ?rep" if e: ?noe2e
  proof
    show nt: ?notarget
    proof
      fix x assume x: "x \<in> set G"
      show "x \<notin> set (all_e2e_targets ?sm)"
      proof
        assume "x \<in> set (all_e2e_targets ?sm)"
        from short_analysis_targets [OF this] obtain g where
          g: "g \<in> set ?out" "present_e2e_pins_of cfg g \<noteq> []" "x \<in> set g" by blast
        from same [OF g(1) g(3) x] g(2) e show False
          by (simp add: present_e2e_pins_empty)
      qed
    qed
    have "appended_isolated cfg G"
      using e more by (simp add: appended_isolated_def eq [symmetric] len present_e2e_pins_empty)
    with G have "p_elements_of cfg G
        \<in> set (map (p_elements_of cfg) (filter (appended_isolated cfg) ?out))" by auto
    moreover have "\<not> list_ex (\<lambda>item. item \<in> set (all_e2e_targets ?sm)) (p_elements_of cfg G)"
      using nt p_elements_subset [of cfg G] by (auto simp: list_ex_iff)
    ultimately show ?rep
      by (subst short_analysis_parts(2)) auto
  qed
  have B: ?noe2e if r: ?rep
  proof -
    from r obtain G' where G': "G' \<in> set ?out" "appended_isolated cfg G'"
      "sort_key py_upper (p_elements_of cfg G') = sort_key py_upper (p_elements_of cfg G)"
      by (subst (asm) short_analysis_parts(2)) auto
    from G'(3) have "set (sort_key py_upper (p_elements_of cfg G'))
        = set (sort_key py_upper (p_elements_of cfg G))" by simp
    then have s: "set (p_elements_of cfg G') = set (p_elements_of cfg G)" by simp
    from more len have "0 < length (p_elements_of cfg G)" by simp
    then have "p_elements_of cfg G \<noteq> []" by simp
    then obtain x where x: "x \<in> set (p_elements_of cfg G)" by (cases "p_elements_of cfg G") auto
    with s p_elements_subset [of cfg G] p_elements_subset [of cfg G']
    have "x \<in> set G'" "x \<in> set G" by auto
    from same [OF G'(1) this] G'(2) show ?noe2e
      by (simp add: appended_isolated_def present_e2e_pins_empty)
  qed
  from A B show ?thesis by blast
qed


theorem isolated_group_reported_iff_witness:
  "sort_key py_upper (p_elements_of example_config [''P1+'', ''P2-''])
     \<in> set (snd (short_analysis example_config
         (reduce_connection_groups example_config [[''P2-'', ''P1+''], [''A3'']]) []))"
proof -
  have out: "reduce_connection_groups example_config [[''P2-'', ''P1+''], [''A3'']]
      = [[''P1+'', ''P2-''], [''A3'']]"
    by code_simp
  have G: "[''P1+'', ''P2-'']
      \<in> set (reduce_connection_groups example_config [[''P2-'', ''P1+''], [''A3'']])"
    by (simp add: out)
  have p: "is_p_element example_config ''P1+''" "is_p_element example_config ''P2-''"
    by code_simp+
  then have np: "\<forall>x \<in> set [''P1+'', ''P2-'']. \<not> is_pin example_config x
      \<longrightarrow> is_p_element example_config x"
    by simp
  from p have "{x \<in> set [''P1+'', ''P2-'']. is_p_element example_config x}
      = {''P1+'', ''P2-''}" by auto
  then have more: "1 < card {x \<in> set [''P1+'', ''P2-'']. is_p_element example_config x}"
    by simp
  have "\<forall>pin \<in> set (E2E_PINS example_config). pin \<notin> set [''P1+'', ''P2-'']"
    by (simp add: example_config_def)
  with isolated_group_reported_iff [OF G np more, of "[]"] show ?thesis by blast
qed

section \<open>Properties of the grid coordinate mapper\<close>

lemma update_keys_distinct: "distinct (map fst al) \<Longrightarrow> distinct (map fst (AList.update k v al))"
  by (rule distinct_update)

lemma update_values:
  "snd ` set (AList.update k v al) \<subseteq> insert v (snd ` set al)"
  by (induction al) auto

lemma update_values_distinct:
  "distinct (map snd al) \<Longrightarrow> v \<notin> snd ` set al \<Longrightarrow> distinct (map snd (AList.update k v al))"
proof (induction al)
  case Nil
  show ?case by simp
next
  case (Cons p al)
  show ?case
  proof (cases "fst p = k")
    case True
    with Cons.prems show ?thesis by auto
  next
    case False
    from Cons.prems have "snd p \<notin> snd ` set (AList.update k v al)"
      using update_values [of k v al] by auto
    with False Cons show ?thesis by auto
  qed
qed

lemma grid_cells_inv:
  assumes "grid_cells prefix cw i n (cm, row, dot) = (cm', row', dot')"
    "distinct (map fst cm)" "distinct (map snd cm)"
    "\<forall>v \<in> snd ` set cm. before_cell (2 * int i + 1) (int (length row) + cw) v"
  shows "distinct (map fst cm') \<and> distinct (map snd cm')
    \<and> (\<forall>v \<in> snd ` set cm'. fst v \<le> 2 * int i + 1)"
  using assms
proof (induction n arbitrary: cm row dot)
  case 0
  then show ?case by (auto simp: before_cell_def)
next
  case (Suc n)
  let ?v = "(2 * int i + 1, int (length row) + cw)"
  let ?k = "prefix @ py_str dot"
  let ?cm = "AList.update ?k ?v cm"
  let ?row = "row @ py_center ?k cw @ ''|''"
  from Suc.prems(1) have run: "grid_cells prefix cw i n (?cm, ?row, dot + 1) = (cm', row', dot')"
    by (simp add: Let_def)
  have fresh: "?v \<notin> snd ` set cm"
    using Suc.prems(4) by (auto simp: before_cell_def)
  have d1: "distinct (map fst ?cm)" using Suc.prems(2) by (rule update_keys_distinct)
  have d2: "distinct (map snd ?cm)" using Suc.prems(3) fresh by (rule update_values_distinct)
  have longer: "int (length row) < int (length ?row)" by simp
  have "\<forall>v \<in> snd ` set ?cm. before_cell (2 * int i + 1) (int (length ?row) + cw) v"
  proof
    fix v assume "v \<in> snd ` set ?cm"
    with update_values [of ?k ?v cm] have "v = ?v \<or> v \<in> snd ` set cm" by auto
    then show "before_cell (2 * int i + 1) (int (length ?row) + cw) v"
    proof
      assume "v = ?v"
      with longer show ?thesis by (simp add: before_cell_def)
    next
      assume "v \<in> snd ` set cm"
      with Suc.prems(4) have "before_cell (2 * int i + 1) (int (length row) + cw) v" by blast
      with longer show ?thesis by (auto simp: before_cell_def)
    qed
  qed
  from Suc.IH [OF run d1 d2 this] show ?case .
qed

lemma grid_rows_inv:
  assumes "grid_rows prefix C R cw border rows (lines, cm, dot) = (lines', cm', dot')"
    "distinct (map fst cm)" "distinct (map snd cm)"
    "sorted_wrt (<) rows"
    "\<forall>i \<in> set rows. \<forall>v \<in> snd ` set cm. fst v < 2 * int i + 1"
  shows "distinct (map fst cm') \<and> distinct (map snd cm')"
  using assms
proof (induction rows arbitrary: lines cm dot)
  case Nil
  then show ?case by simp
next
  case (Cons i rest)
  obtain cm1 row1 dot1 where cells: "grid_cells prefix cw i C (cm, ''|'', dot) = (cm1, row1, dot1)"
    by (cases "grid_cells prefix cw i C (cm, ''|'', dot)") auto
  from Cons.prems(1) cells obtain lines1 where
    run: "grid_rows prefix C R cw border rest (lines1, cm1, dot1) = (lines', cm', dot')"
    by simp
  have "\<forall>v \<in> snd ` set cm. before_cell (2 * int i + 1) (int (length ''|'') + cw) v"
    using Cons.prems(5) by (simp add: before_cell_def)
  from grid_cells_inv [OF cells Cons.prems(2,3) this]
  have inv: "distinct (map fst cm1)" "distinct (map snd cm1)"
    "\<forall>v \<in> snd ` set cm1. fst v \<le> 2 * int i + 1" by simp_all
  have "\<forall>j \<in> set rest. \<forall>v \<in> snd ` set cm1. fst v < 2 * int j + 1"
  proof (intro ballI)
    fix j v assume j: "j \<in> set rest" and v: "v \<in> snd ` set cm1"
    from Cons.prems(4) j have "i < j" by simp
    with inv(3) v show "fst v < 2 * int j + 1" by fastforce
  qed
  moreover from Cons.prems(4) have "sorted_wrt (<) rest" by simp
  ultimately show ?case using Cons.IH [OF run inv(1,2)] by blast
qed

lemma generate_ascii_grid_distinct:
  "distinct (map fst (snd (generate_ascii_grid prefix C R cw)))
   \<and> distinct (map snd (snd (generate_ascii_grid prefix C R cw)))"
proof -
  let ?border = "''+'' @ concat (replicate (nat C) (replicate (nat cw) CHR ''-'' @ ''+''))"
  obtain lines cm dot where run:
    "grid_rows prefix (nat C) R cw ?border [0..<nat R] ([?border], [], 1) = (lines, cm, dot)"
    by (cases "grid_rows prefix (nat C) R cw ?border [0..<nat R] ([?border], [], 1)") auto
  have "sorted_wrt (<) [0..<nat R]" by simp
  from grid_rows_inv [OF run _ _ this] have "distinct (map fst cm) \<and> distinct (map snd cm)"
    by simp
  with run show ?thesis by (simp add: generate_ascii_grid_def)
qed

text \<open>
  Claim C8.  The coordinate map returned by \<open>generate_ascii_grid\<close> is injective: two pin
  identifiers mapped to the same \<open>(line_index, closing_pipe_index)\<close> are the same
  identifier.  This holds for all dimensions, the positive ones included.
\<close>

theorem generate_ascii_grid_injective:
  assumes "map_of (snd (generate_ascii_grid prefix C R cell_width)) pin1 = Some coord"
    and "map_of (snd (generate_ascii_grid prefix C R cell_width)) pin2 = Some coord"
  shows "pin1 = pin2"
proof -
  let ?cm = "snd (generate_ascii_grid prefix C R cell_width)"
  from generate_ascii_grid_distinct [of prefix C R cell_width]
  have d: "distinct (map snd ?cm)" by blast
  from assms have "(pin1, coord) \<in> set ?cm" "(pin2, coord) \<in> set ?cm"
    by (auto dest: map_of_SomeD)
  then obtain a b where ab: "a < length ?cm" "?cm ! a = (pin1, coord)"
    "b < length ?cm" "?cm ! b = (pin2, coord)" by (auto simp: in_set_conv_nth)
  then have eq: "map snd ?cm ! a = map snd ?cm ! b" by simp
  from ab have "a < length (map snd ?cm)" "b < length (map snd ?cm)" by simp_all
  from nth_eq_iff_index_eq [OF d this] eq have "a = b" by blast
  with ab show ?thesis by simp
qed


theorem generate_ascii_grid_injective_witness:
  "map_of (snd (generate_ascii_grid ''A'' 3 2 4)) ''A5'' = Some (3, 10)
   \<and> {pin. map_of (snd (generate_ascii_grid ''A'' 3 2 4)) pin = Some (3, 10)} = {''A5''}"
proof -
  have a5: "map_of (snd (generate_ascii_grid ''A'' 3 2 4)) ''A5'' = Some (3, 10)"
    by code_simp
  have "{pin. map_of (snd (generate_ascii_grid ''A'' 3 2 4)) pin = Some (3, 10)} = {''A5''}"
  proof (rule set_eqI)
    fix pin
    show "pin \<in> {pin. map_of (snd (generate_ascii_grid ''A'' 3 2 4)) pin = Some (3, 10)}
        \<longleftrightarrow> pin \<in> {''A5''}"
    proof
      assume "pin \<in> {pin. map_of (snd (generate_ascii_grid ''A'' 3 2 4)) pin = Some (3, 10)}"
      then have "map_of (snd (generate_ascii_grid ''A'' 3 2 4)) pin = Some (3, 10)" by simp
      from generate_ascii_grid_injective [OF this a5] show "pin \<in> {''A5''}" by simp
    next
      assume "pin \<in> {''A5''}"
      then have "pin = ''A5''" by simp
      with a5 show "pin \<in> {pin. map_of (snd (generate_ascii_grid ''A'' 3 2 4)) pin = Some (3, 10)}"
        by simp
    qed
  qed
  with a5 show ?thesis by (rule conjI)
qed

section \<open>Properties of the colored copies\<close>

lemma deref_Nil: "deref h [] = []"
  by (simp add: deref_def)

lemma map_of_deref: "map_of (deref h d) p = map_option (\<lambda>a. h ! a) (map_of d p)"
  by (induction d) (auto simp: deref_def)

lemma deref_append:
  "\<forall>a \<in> snd ` set d. a < length h \<Longrightarrow> deref (h @ ext) d = deref h d"
  by (induction d) (auto simp: deref_def nth_append)

lemma deref_update_key:
  "deref h (AList.update p a d) = AList.update p (h ! a) (deref h d)"
  by (induction d) (auto simp: deref_def)

lemma deref_heap_other:
  "a \<notin> snd ` set d \<Longrightarrow> deref (h[a := v]) d = deref h d"
  by (induction d) (auto simp: deref_def)

lemma deref_heap_update:
  "distinct (map snd d) \<Longrightarrow> map_of d p = Some a \<Longrightarrow> a < length h
   \<Longrightarrow> deref (h[a := v]) d = AList.update p v (deref h d)"
proof (induction d)
  case Nil
  then show ?case by simp
next
  case (Cons e d)
  obtain q b where e: "e = (q, b)" by (cases e)
  show ?case
  proof (cases "q = p")
    case True
    with Cons.prems e have "b = a" "a \<notin> snd ` set d" by auto
    with True e Cons.prems(3) deref_heap_other [of a d h v] show ?thesis
      by (simp add: deref_def)
  next
    case False
    with Cons.prems e have m: "map_of d p = Some a" by simp
    then have "a \<in> snd ` set d" by (force dest: map_of_SomeD)
    with Cons.prems(1) e have "b \<noteq> a" by auto
    with Cons.IH [OF _ m Cons.prems(3)] Cons.prems(1) False e show ?thesis
      by (simp add: deref_def)
  qed
qed


lemma fresh_refs_alloc:
  assumes "fresh_refs n h d" "n \<le> length h"
  shows "fresh_refs n (h @ [x]) (AList.update p (length h) d)"
proof -
  from assms(1) have "length h \<notin> snd ` set d" by (auto simp: fresh_refs_def)
  with assms(1) have "distinct (map snd (AList.update p (length h) d))"
    by (simp add: fresh_refs_def update_values_distinct)
  moreover have "\<forall>a \<in> snd ` set (AList.update p (length h) d). n \<le> a \<and> a < length (h @ [x])"
    using update_values [of p "length h" d] assms by (fastforce simp: fresh_refs_def)
  ultimately show ?thesis by (simp add: fresh_refs_def)
qed

lemma clone_lines_refines:
  assumes "clone_lines ps base h col = (h', r)"
    "fresh_refs n h col" "n \<le> length h" "\<forall>a \<in> snd ` set base. a < n"
  shows "take (length h) h' = h
    \<and> (case r of
          Inl e \<Rightarrow> clone_contents ps (deref h base) (deref h col) = Inl e
        | Inr col' \<Rightarrow> clone_contents ps (deref h base) (deref h col) = Inr (deref h' col')
            \<and> fresh_refs n h' col')"
  using assms
proof (induction ps arbitrary: h col)
  case Nil
  then show ?case by auto
next
  case (Cons p ps)
  show ?case
  proof (cases "map_of base p")
    case None
    with Cons.prems(1) show ?thesis by (auto simp: map_of_deref)
  next
    case (Some a)
    let ?h = "h @ [h ! a]"
    let ?col = "AList.update p (length h) col"
    from Cons.prems(1) Some have run: "clone_lines ps base ?h ?col = (h', r)" by simp
    have fr: "fresh_refs n ?h ?col" using Cons.prems(2,3) by (rule fresh_refs_alloc)
    have n: "n \<le> length ?h" using Cons.prems(3) by simp
    from Cons.IH [OF run fr n Cons.prems(4)]
    have ih: "take (length ?h) h' = ?h"
      "case r of
          Inl e \<Rightarrow> clone_contents ps (deref ?h base) (deref ?h ?col) = Inl e
        | Inr col' \<Rightarrow> clone_contents ps (deref ?h base) (deref ?h ?col) = Inr (deref h' col')
            \<and> fresh_refs n h' col'" by simp_all
    have b: "deref ?h base = deref h base"
      by (rule deref_append) (use Cons.prems(3,4) in fastforce)
    have "deref ?h col = deref h col"
      by (rule deref_append) (use Cons.prems(2) in \<open>auto simp: fresh_refs_def\<close>)
    then have c: "deref ?h ?col = AList.update p (h ! a) (deref h col)"
      by (simp add: deref_update_key)
    have step: "clone_contents (p # ps) (deref h base) (deref h col)
        = clone_contents ps (deref h base) (AList.update p (h ! a) (deref h col))"
      using Some by (simp add: map_of_deref)
    have "take (length h) (take (length ?h) h') = h" unfolding ih(1) by simp
    then have t: "take (length h) h' = h" by (simp add: min_def)
    from ih(2) t show ?thesis unfolding b c step by simp
  qed
qed

lemma color_prefixes_refines:
  assumes "color_prefixes ps col obp h = (h', e)" "fresh_refs n h col"
  shows "color_contents ps obp (deref h col) = (deref h' col, e)
    \<and> length h' = length h \<and> take n h' = take n h"
  using assms
proof (induction ps arbitrary: h)
  case Nil
  then show ?case by auto
next
  case (Cons p ps)
  show ?case
  proof (cases "map_of col p")
    case None
    with Cons.prems(1) show ?thesis by (auto simp: map_of_deref)
  next
    case a: (Some a)
    from a have "a \<in> snd ` set col" by (force dest: map_of_SomeD)
    with Cons.prems(2) have bounds: "n \<le> a" "a < length h" by (auto simp: fresh_refs_def)
    show ?thesis
    proof (cases "map_of obp p")
      case None
      with a Cons.prems(1) show ?thesis by (auto simp: map_of_deref)
    next
      case ops: (Some ops)
      obtain ls eo where ac: "apply_coloring (h ! a) ops = (ls, eo)"
        by (cases "apply_coloring (h ! a) ops")
      let ?h = "h[a := ls]"
      have d: "deref ?h col = AList.update p ls (deref h col)"
        using Cons.prems(2) a bounds(2) by (simp add: deref_heap_update fresh_refs_def)
      have tk: "take n ?h = take n h" using bounds(1) by simp
      show ?thesis
      proof (cases eo)
        case None
        with Cons.prems(1) a ops ac have run: "color_prefixes ps col obp ?h = (h', e)" by simp
        have "fresh_refs n ?h col" using Cons.prems(2) by (simp add: fresh_refs_def)
        from Cons.IH [OF run this] d tk a ops ac None show ?thesis
          by (simp add: map_of_deref)
      next
        case (Some err)
        with Cons.prems(1) a ops ac have "h' = ?h" "e = Some err" by simp_all
        with d tk a ops ac Some show ?thesis by (simp add: map_of_deref)
      qed
    qed
  qed
qed

lemma build_refines:
  assumes "build_colored_grid_lines cfg base ops h = (h', r)"
    "\<forall>a \<in> snd ` set base. a < length h"
  shows "take (length h) h' = h
    \<and> (case r of
          Inl e \<Rightarrow> colored_contents cfg (deref h base) ops = Inl e
        | Inr col \<Rightarrow> colored_contents cfg (deref h base) ops = Inr (deref h' col)
            \<and> fresh_refs (length h) h' col)"
proof -
  obtain h1 r1 where cl: "clone_lines (GRID_PREFIXES cfg) base h [] = (h1, r1)"
    by (cases "clone_lines (GRID_PREFIXES cfg) base h []")
  have "fresh_refs (length h) h []" by (simp add: fresh_refs_def)
  from clone_lines_refines [OF cl this _ assms(2), unfolded deref_Nil]
  have c1: "take (length h) h1 = h"
    "case r1 of
          Inl e \<Rightarrow> clone_contents (GRID_PREFIXES cfg) (deref h base) [] = Inl e
        | Inr col' \<Rightarrow> clone_contents (GRID_PREFIXES cfg) (deref h base) [] = Inr (deref h1 col')
            \<and> fresh_refs (length h) h1 col'"
    by (simp_all add: deref_Nil)
  show ?thesis
  proof (cases r1)
    case (Inl e)
    with c1(2) have cc: "clone_contents (GRID_PREFIXES cfg) (deref h base) [] = Inl e" by simp
    from assms(1) cl Inl have "h' = h1" "r = Inl e"
      by (simp_all add: build_colored_grid_lines_def)
    with c1(1) cc show ?thesis by (simp add: colored_contents_def)
  next
    case (Inr col)
    with c1 have cc: "clone_contents (GRID_PREFIXES cfg) (deref h base) [] = Inr (deref h1 col)"
      and fr: "fresh_refs (length h) h1 col" by simp_all
    let ?g = "group_by_prefix ops (foldl (\<lambda>d p. AList.update p [] d) [] (GRID_PREFIXES cfg))"
    show ?thesis
    proof (cases ?g)
      case (Inl e)
      from assms(1) cl Inr Inl have "h' = h1" "r = Inl e"
        by (simp_all add: build_colored_grid_lines_def)
      with c1(1) cc Inl show ?thesis by (simp add: colored_contents_def)
    next
      case obp: (Inr obp)
      obtain h2 e where cp: "color_prefixes (GRID_PREFIXES cfg) col obp h1 = (h2, e)"
        by (cases "color_prefixes (GRID_PREFIXES cfg) col obp h1")
      from color_prefixes_refines [OF cp fr]
      have c2: "color_contents (GRID_PREFIXES cfg) obp (deref h1 col) = (deref h2 col, e)"
        "length h2 = length h1" "take (length h) h2 = take (length h) h1" by simp_all
      have fr2: "fresh_refs (length h) h2 col" using fr c2(2) by (simp add: fresh_refs_def)
      from assms(1) cl Inr obp cp have res: "h' = h2" "r = (case e of None \<Rightarrow> Inr col | Some x \<Rightarrow> Inl x)"
        by (auto simp: build_colored_grid_lines_def split: option.splits)
      show ?thesis
      proof (cases e)
        case None
        with res c1(1) c2 cc obp fr2 show ?thesis by (simp add: colored_contents_def)
      next
        case (Some x)
        with res c1(1) c2 cc obp show ?thesis by (simp add: colored_contents_def)
      qed
    qed
  qed
qed


text \<open>
  Claim C9.  Let the references of \<open>base_grid_lines\<close> point to list objects of the heap.
  Whatever \<open>build_colored_grid_lines\<close> does, every list object that existed before the
  call, the base lists included, has the same content afterwards.  When the call returns
  a dictionary, its lists are pairwise distinct objects allocated by the call; and a
  second call on the same base with the same operations returns as well, its lists have
  the same contents as those of the first call, they share no object with them, and the
  lists of the first call and the base are unchanged by the second call.
\<close>

theorem build_colored_grid_lines_preserves_base:
  assumes valid: "\<forall>a \<in> snd ` set base_grid_lines. a < length h"
  shows "take (length h) (fst (build_colored_grid_lines cfg base_grid_lines consolidated_ops h)) = h
    \<and> (\<forall>colored.
          snd (build_colored_grid_lines cfg base_grid_lines consolidated_ops h) = Inr colored \<longrightarrow>
          fresh_refs (length h)
            (fst (build_colored_grid_lines cfg base_grid_lines consolidated_ops h)) colored
          \<and> (\<exists>h2 colored2.
                build_colored_grid_lines cfg base_grid_lines consolidated_ops
                  (fst (build_colored_grid_lines cfg base_grid_lines consolidated_ops h))
                  = (h2, Inr colored2)
                \<and> deref h2 colored2
                    = deref (fst (build_colored_grid_lines cfg base_grid_lines consolidated_ops h))
                        colored
                \<and> deref h2 colored
                    = deref (fst (build_colored_grid_lines cfg base_grid_lines consolidated_ops h))
                        colored
                \<and> set (map snd colored) \<inter> set (map snd colored2) = {}
                \<and> take (length h) h2 = h))"
proof -
  obtain h1 r1 where b1:
    "build_colored_grid_lines cfg base_grid_lines consolidated_ops h = (h1, r1)"
    by (cases "build_colored_grid_lines cfg base_grid_lines consolidated_ops h")
  from build_refines [OF b1 valid] have t1: "take (length h) h1 = h"
    and c1: "case r1 of
          Inl e \<Rightarrow> colored_contents cfg (deref h base_grid_lines) consolidated_ops = Inl e
        | Inr col \<Rightarrow> colored_contents cfg (deref h base_grid_lines) consolidated_ops
              = Inr (deref h1 col) \<and> fresh_refs (length h) h1 col"
    by simp_all
  have second: "fresh_refs (length h) h1 colored
      \<and> (\<exists>h2 colored2.
            build_colored_grid_lines cfg base_grid_lines consolidated_ops h1 = (h2, Inr colored2)
            \<and> deref h2 colored2 = deref h1 colored
            \<and> deref h2 colored = deref h1 colored
            \<and> set (map snd colored) \<inter> set (map snd colored2) = {}
            \<and> take (length h) h2 = h)"
    if r1: "r1 = Inr colored" for colored
  proof -
    from c1 r1 have cc1: "colored_contents cfg (deref h base_grid_lines) consolidated_ops
        = Inr (deref h1 colored)" and fr1: "fresh_refs (length h) h1 colored" by simp_all
    from t1 have "length (take (length h) h1) = length h" by simp
    then have len: "length h \<le> length h1" by simp
    with valid have valid1: "\<forall>a \<in> snd ` set base_grid_lines. a < length h1" by fastforce
    have "h1 = h @ drop (length h) h1" using t1 append_take_drop_id [of "length h" h1] by simp
    then have "deref h1 base_grid_lines = deref (h @ drop (length h) h1) base_grid_lines" by simp
    also have "\<dots> = deref h base_grid_lines" using valid by (rule deref_append)
    finally have db: "deref h1 base_grid_lines = deref h base_grid_lines" .
    obtain h2 r2 where b2:
      "build_colored_grid_lines cfg base_grid_lines consolidated_ops h1 = (h2, r2)"
      by (cases "build_colored_grid_lines cfg base_grid_lines consolidated_ops h1")
    from build_refines [OF b2 valid1] have t2: "take (length h1) h2 = h1"
      and c2: "case r2 of
          Inl e \<Rightarrow> colored_contents cfg (deref h1 base_grid_lines) consolidated_ops = Inl e
        | Inr col \<Rightarrow> colored_contents cfg (deref h1 base_grid_lines) consolidated_ops
              = Inr (deref h2 col) \<and> fresh_refs (length h1) h2 col"
      by simp_all
    from c2 cc1 db obtain colored2 where r2: "r2 = Inr colored2"
      by (cases r2) simp_all
    with c2 cc1 db have eq: "deref h2 colored2 = deref h1 colored"
      and fr2: "fresh_refs (length h1) h2 colored2" by simp_all
    have "h2 = h1 @ drop (length h1) h2" using t2 append_take_drop_id [of "length h1" h2] by simp
    then have "deref h2 colored = deref (h1 @ drop (length h1) h2) colored" by simp
    also have "\<dots> = deref h1 colored"
      by (rule deref_append) (use fr1 in \<open>simp add: fresh_refs_def\<close>)
    finally have keep: "deref h2 colored = deref h1 colored" .
    have disj: "set (map snd colored) \<inter> set (map snd colored2) = {}"
      using fr1 fr2 by (fastforce simp: fresh_refs_def)
    have "take (length h) (take (length h1) h2) = h" unfolding t2 by (rule t1)
    with len have "take (length h) h2 = h" by (simp add: min_def)
    with fr1 b2 r2 eq keep disj show ?thesis by blast
  qed
  from t1 second show ?thesis unfolding b1 by simp
qed

theorem build_colored_grid_lines_preserves_base_witness:
  "take 2 (fst (build_colored_grid_lines example_config [(''A'', 0), (''B'', 1)]
       [(1, 3, ''>'', ''A''), (1, 1, ''<'', ''A'')]
       [[''+--+'', ''|A1|''], [''+--+'', ''|B1|'']]))
     = [[''+--+'', ''|A1|''], [''+--+'', ''|B1|'']]
   \<and> (\<exists>h2 colored2.
         build_colored_grid_lines example_config [(''A'', 0), (''B'', 1)]
           [(1, 3, ''>'', ''A''), (1, 1, ''<'', ''A'')]
           (fst (build_colored_grid_lines example_config [(''A'', 0), (''B'', 1)]
             [(1, 3, ''>'', ''A''), (1, 1, ''<'', ''A'')]
             [[''+--+'', ''|A1|''], [''+--+'', ''|B1|'']]))
           = (h2, Inr colored2)
         \<and> deref h2 colored2 = [(''A'', [''+--+'', ''|<A1>|'']), (''B'', [''+--+'', ''|B1|''])]
         \<and> set (map snd [(''A'', 2 :: nat), (''B'', 3)]) \<inter> set (map snd colored2) = {}
         \<and> take 2 h2 = [[''+--+'', ''|A1|''], [''+--+'', ''|B1|'']])"
proof -
  let ?h = "[[''+--+'', ''|A1|''], [''+--+'', ''|B1|'']]"
  let ?base = "[(''A'', 0 :: nat), (''B'', 1)]"
  let ?ops = "[(1 :: int, 3 :: int, ''>'', ''A''), (1, 1, ''<'', ''A'')]"
  have run: "build_colored_grid_lines example_config ?base ?ops ?h
      = (?h @ [[''+--+'', ''|<A1>|''], [''+--+'', ''|B1|'']], Inr [(''A'', 2), (''B'', 3)])"
    by code_simp
  have valid: "\<forall>a \<in> snd ` set ?base. a < length ?h" by simp
  have d: "deref (?h @ [[''+--+'', ''|<A1>|''], [''+--+'', ''|B1|'']]) [(''A'', 2), (''B'', 3)]
      = [(''A'', [''+--+'', ''|<A1>|'']), (''B'', [''+--+'', ''|B1|''])]"
    by (simp add: deref_def)
  have l: "length ?h = 2" by simp
  note T = build_colored_grid_lines_preserves_base [OF valid, of example_config ?ops]
  from T have frame: "take 2 (fst (build_colored_grid_lines example_config ?base ?ops ?h)) = ?h"
    unfolding l by (rule conjunct1)
  have "snd (build_colored_grid_lines example_config ?base ?ops ?h) = Inr [(''A'', 2), (''B'', 3)]"
    unfolding run by simp
  with T obtain h2 colored2 where second:
    "build_colored_grid_lines example_config ?base ?ops
       (fst (build_colored_grid_lines example_config ?base ?ops ?h)) = (h2, Inr colored2)"
    "deref h2 colored2
       = deref (fst (build_colored_grid_lines example_config ?base ?ops ?h)) [(''A'', 2), (''B'', 3)]"
    "set (map snd [(''A'', 2 :: nat), (''B'', 3)]) \<inter> set (map snd colored2) = {}"
    "take (length ?h) h2 = ?h"
    by blast
  from second(2) have c: "deref h2 colored2
      = [(''A'', [''+--+'', ''|<A1>|'']), (''B'', [''+--+'', ''|B1|''])]"
    unfolding run fst_conv d .
  from second(4) have t: "take 2 h2 = ?h" unfolding l .
  from frame second(1) c second(3) t show ?thesis by blast
qed

end
